theory Spec2Isabelle
  imports Complex_Main
begin

section \<open>Number model and errors\<close>

text \<open>
  The C++ sources compute with \<^verbatim>\<open>float\<close> (tessellated_path.cpp) and \<^verbatim>\<open>double\<close>
  (sweep.cpp), the binary32 and binary64 formats of IEEE 754. A floating point value is
  embedded as the real number it denotes, and each arithmetic operation of the source as
  the exact operation followed by rounding to the nearest number of the format, ties to
  the even significand.

  \<open>round_even\<close> rounds a real to the nearest integer, ties to even. \<open>fp_ulp n bound a u\<close>
  is the spacing of the format at magnitude \<open>a\<close>: it starts from the spacing \<open>u\<close> of the
  subnormal numbers and doubles it, at most \<open>n\<close> times, while \<open>a\<close> needs more than the
  digits of the significand (\<open>bound\<close> is 2 to the number of digits). \<open>fp_round\<close> rounds to
  the nearest multiple of that spacing.

  The embedding has no infinity and no NaN. A result beyond the largest finite number of
  the format is rounded with the spacing of the largest numbers, where the C++ code gets
  an infinity; a division by zero has the value 0 that it has in HOL.

  \<^verbatim>\<open>unsigned int\<close> is embedded as \<^typ>\<open>nat\<close> with the 32-bit wrap-around written out by
  \<open>u32\<close>. A failed \<^verbatim>\<open>FASTUIDRAWassert\<close> and every step whose behaviour C++ leaves
  undefined is a value of \<open>error\<close>; a function that can fail returns \<open>error + 'a\<close>.
\<close>

datatype error = AssertionFailure | UndefinedBehaviour | DoesNotReturn

definition bind_r :: "error + 'a \<Rightarrow> ('a \<Rightarrow> error + 'b) \<Rightarrow> error + 'b" where
  "bind_r m f = (case m of Inl e \<Rightarrow> Inl e | Inr x \<Rightarrow> f x)"

definition u32 :: "nat \<Rightarrow> nat" where
  "u32 n = n mod 4294967296"

definition round_even :: "real \<Rightarrow> int" where
  "round_even r =
     (let f = \<lfloor>r\<rfloor>; d = r - of_int f
      in if d < 1 / 2 then f else if 1 / 2 < d then f + 1 else if even f then f else f + 1)"

fun fp_ulp :: "nat \<Rightarrow> real \<Rightarrow> real \<Rightarrow> real \<Rightarrow> real" where
  "fp_ulp 0 bound a u = u"
| "fp_ulp (Suc n) bound a u = (if bound * u \<le> a then fp_ulp n bound a (2 * u) else u)"

definition fp_round :: "nat \<Rightarrow> real \<Rightarrow> real \<Rightarrow> real \<Rightarrow> real" where
  "fp_round n bound u0 x =
     (let u = fp_ulp n bound \<bar>x\<bar> u0 in of_int (round_even (x / u)) * u)"

text \<open>
  binary32 has 24 digits, its subnormal numbers are the multiples of \<open>2^-149\<close>, and the
  spacing of its largest numbers is \<open>2^104\<close>, reached after 253 doublings.
\<close>

definition float_round :: "real \<Rightarrow> real" where
  "float_round = fp_round 253 16777216 (1 / 2 ^ 149)"

definition float_add :: "real \<Rightarrow> real \<Rightarrow> real" where
  "float_add x y = float_round (x + y)"

definition float_sub :: "real \<Rightarrow> real \<Rightarrow> real" where
  "float_sub x y = float_round (x - y)"

definition float_mul :: "real \<Rightarrow> real \<Rightarrow> real" where
  "float_mul x y = float_round (x * y)"

definition float_div :: "real \<Rightarrow> real \<Rightarrow> real" where
  "float_div x y = float_round (x / y)"

text \<open>
  binary64 has 53 digits, its subnormal numbers are the multiples of \<open>2^-1074\<close>, and the
  spacing of its largest numbers is \<open>2^971\<close>, reached after 2045 doublings.
\<close>

definition double_round :: "real \<Rightarrow> real" where
  "double_round = fp_round 2045 9007199254740992 (1 / 2 ^ 1074)"





text \<open>
  Modelled from the spec: \<^verbatim>\<open>t_sqrt\<close>, \<^verbatim>\<open>t_cos\<close> and \<^verbatim>\<open>t_sin\<close> (util/math.hpp) are not
  among the sources. They are the functions of the C library at type \<^verbatim>\<open>float\<close>, taken
  here as correctly rounded; no result below depends on a value of the cosine or the
  sine.
\<close>

definition t_sqrt :: "real \<Rightarrow> real" where
  "t_sqrt x = float_round (sqrt x)"

definition t_cos :: "real \<Rightarrow> real" where
  "t_cos x = float_round (cos x)"

definition t_sin :: "real \<Rightarrow> real" where
  "t_sin x = float_round (sin x)"

section \<open>Geometry primitives\<close>

text \<open>
  Modelled from the spec: \<^verbatim>\<open>vec2\<close>, that is \<^verbatim>\<open>vecN<float, 2>\<close> (util/vecN.hpp), is not
  among the sources. Its operators work component by component in \<^verbatim>\<open>float\<close>, and
  \<^verbatim>\<open>magnitude\<close> is the square root of the sum of the squares.
\<close>

type_synonym vec2 = "real \<times> real"

definition vec2_add :: "vec2 \<Rightarrow> vec2 \<Rightarrow> vec2" where
  "vec2_add p q = (float_add (fst p) (fst q), float_add (snd p) (snd q))"

definition vec2_sub :: "vec2 \<Rightarrow> vec2 \<Rightarrow> vec2" where
  "vec2_sub p q = (float_sub (fst p) (fst q), float_sub (snd p) (snd q))"

definition vec2_scale :: "real \<Rightarrow> vec2 \<Rightarrow> vec2" where
  "vec2_scale k p = (float_mul k (fst p), float_mul k (snd p))"

definition vec2_div :: "vec2 \<Rightarrow> real \<Rightarrow> vec2" where
  "vec2_div p k = (float_div (fst p) k, float_div (snd p) k)"

definition magnitude :: "vec2 \<Rightarrow> real" where
  "magnitude p = t_sqrt (float_add (float_mul (fst p) (fst p)) (float_mul (snd p) (snd p)))"

record 'a range_type =
  m_begin :: 'a
  m_end :: 'a

section \<open>Segments and SegmentStorage (tessellated\_path.cpp)\<close>

datatype segment_type_t = arc_segment | line_segment

record segment =
  m_type :: segment_type_t
  m_start_pt :: vec2
  m_end_pt :: vec2
  m_center :: vec2
  m_arc_angle :: "real range_type"
  m_radius :: real
  m_length :: real
  m_distance_from_edge_start :: real
  m_distance_from_contour_start :: real
  m_edge_length :: real
  m_open_contour_length :: real
  m_closed_contour_length :: real
  m_enter_segment_unit_vector :: vec2
  m_leaving_segment_unit_vector :: vec2
  m_tangent_with_predecessor :: bool

text \<open>
  \<^verbatim>\<open>segment S;\<close> leaves every field without a value. The embedding starts from
  \<open>segment_fresh\<close>, whose fields are placeholders: each one is assigned by
  \<open>add_line_segment\<close>, \<open>add_tessellated_arc_segment\<close>, \<open>add_edge\<close> or \<open>end_contour\<close>
  before a finished path can be read.
\<close>

definition segment_fresh :: segment where
  "segment_fresh =
     \<lparr> m_type = line_segment, m_start_pt = (0, 0), m_end_pt = (0, 0), m_center = (0, 0),
       m_arc_angle = \<lparr> m_begin = 0, m_end = 0 \<rparr>, m_radius = 0, m_length = 0,
       m_distance_from_edge_start = 0, m_distance_from_contour_start = 0,
       m_edge_length = 0, m_open_contour_length = 0, m_closed_contour_length = 0,
       m_enter_segment_unit_vector = (0, 0), m_leaving_segment_unit_vector = (0, 0),
       m_tangent_with_predecessor = False \<rparr>"

text \<open>\<^verbatim>\<open>SegmentStorage::add_line_segment\<close>: \<open>d\<close> is the vector behind \<^verbatim>\<open>m_d\<close>.\<close>

definition add_line_segment :: "vec2 \<Rightarrow> vec2 \<Rightarrow> segment list \<Rightarrow> segment list" where
  "add_line_segment start end d =
     d @ [segment_fresh \<lparr> m_start_pt := start, m_end_pt := end, m_radius := 0,
            m_center := (0, 0), m_arc_angle := \<lparr> m_begin = 0, m_end = 0 \<rparr>,
            m_type := line_segment, m_tangent_with_predecessor := False \<rparr>]"

text \<open>
  \<^verbatim>\<open>float max_arc(M_PI / 4.0)\<close>: the quotient is computed in \<^verbatim>\<open>double\<close> and converted to
  \<^verbatim>\<open>float\<close>, which gives \<open>13176795 / 2^24\<close>, a number above \<open>\<pi>/4\<close>.
\<close>

definition max_arc :: real where
  "max_arc = 13176795 / 16777216"

text \<open>
  The loop of \<^verbatim>\<open>add_tessellated_arc_segment\<close>:
  \<^verbatim>\<open>for (i = 0, theta = arc_angle.m_begin; i < cnt; ++i, theta += da)\<close>.
\<close>

function arc_segment_loop ::
  "nat \<Rightarrow> nat \<Rightarrow> real \<Rightarrow> real \<Rightarrow> vec2 \<Rightarrow> vec2 \<Rightarrow> vec2 \<Rightarrow> real \<Rightarrow> bool
     \<Rightarrow> segment list \<Rightarrow> segment list" where
  "arc_segment_loop i cnt theta da start end center radius tangent_with_predecessor d =
     (if i < cnt then
        let S = segment_fresh
              \<lparr> m_start_pt := (if i = 0 then start else m_end_pt (last d)),
                m_tangent_with_predecessor := (if i = 0 then tangent_with_predecessor else True),
                m_end_pt := (if i + 1 = cnt then end
                             else vec2_add center
                                    (vec2_scale radius
                                       (t_cos (float_add theta da), t_sin (float_add theta da)))),
                m_center := center,
                m_arc_angle := \<lparr> m_begin = theta, m_end = float_add theta da \<rparr>,
                m_radius := radius,
                m_type := arc_segment \<rparr>
        in arc_segment_loop (i + 1) cnt (float_add theta da) da start end center radius
             tangent_with_predecessor (d @ [S])
      else d)"
  by pat_completeness auto
termination
  by (relation "measure (\<lambda>(i, cnt, _). cnt - i)") auto

declare arc_segment_loop.simps [simp del]

text \<open>
  \<^verbatim>\<open>cnt = 1u + static_cast<unsigned int>(a / max_arc)\<close>: the conversion of a floating
  value to \<^verbatim>\<open>unsigned int\<close> drops the fraction and is undefined from \<open>2^32\<close> on; the sum
  is a sum of \<^verbatim>\<open>unsigned int\<close>. \<^verbatim>\<open>static_cast<float>(cnt)\<close> rounds the count to
  \<^verbatim>\<open>float\<close>. The difference of the angles is computed twice in the source, with the same
  result.
\<close>

definition add_tessellated_arc_segment ::
  "vec2 \<Rightarrow> vec2 \<Rightarrow> vec2 \<Rightarrow> real \<Rightarrow> real range_type \<Rightarrow> bool \<Rightarrow> segment list
     \<Rightarrow> error + segment list" where
  "add_tessellated_arc_segment start end center radius arc_angle tangent_with_predecessor d =
     (let a = \<bar>float_sub (m_end arc_angle) (m_begin arc_angle)\<bar>;
          q = float_div a max_arc
      in
      if q < 4294967296 then
        let cnt = u32 (1 + nat \<lfloor>q\<rfloor>);
            da = float_div (float_sub (m_end arc_angle) (m_begin arc_angle))
                   (float_round (real cnt))
        in Inr (arc_segment_loop 0 cnt (m_begin arc_angle) da start end center radius
                  tangent_with_predecessor d)
      else Inl UndefinedBehaviour)"

text \<open>
  The table \<^verbatim>\<open>crit_angles\<close> holds the values of \<^verbatim>\<open>-0.5 * M_PI\<close>, \<^verbatim>\<open>0.0\<close>, \<^verbatim>\<open>0.5 * M_PI\<close>,
  \<^verbatim>\<open>M_PI\<close>, \<^verbatim>\<open>1.5 * M_PI\<close>, \<^verbatim>\<open>2.0 * M_PI\<close> and \<^verbatim>\<open>2.5 * M_PI\<close>, computed in \<^verbatim>\<open>double\<close> and
  converted to \<^verbatim>\<open>float\<close>.
\<close>

definition crit_angles :: "real list" where
  "crit_angles =
     [- 13176795 / 8388608, 0, 13176795 / 8388608, 13176795 / 4194304, 2470649 / 524288,
      13176795 / 2097152, 16470993 / 2097152]"

definition crit_pts :: "vec2 list" where
  "crit_pts = [(0, - 1), (1, 0), (0, 1), (- 1, 0), (0, - 1), (1, 0), (0, 1)]"

text \<open>
  The loop \<^verbatim>\<open>for (i = 0, reverse_i = 6; i < 7; ++i, --reverse_i)\<close> of
  \<^verbatim>\<open>add_arc_segment\<close>, over the list of the values of \<open>i\<close> still to come. Its state is
  \<open>(prev_angle, prev_pt, tangent_with_predessor, d)\<close>.
\<close>

fun add_arc_segment_loop ::
  "nat list \<Rightarrow> vec2 \<Rightarrow> real \<Rightarrow> real range_type \<Rightarrow> real \<times> vec2 \<times> bool \<times> segment list
     \<Rightarrow> error + (real \<times> vec2 \<times> bool \<times> segment list)" where
  "add_arc_segment_loop [] center radius arc_angle st = Inr st"
| "add_arc_segment_loop (i # rest) center radius arc_angle (prev_angle, prev_pt, twp, d) =
     (let K = (if m_begin arc_angle < m_end arc_angle then i else 6 - i);
          should_split =
            (if m_begin arc_angle < m_end arc_angle
             then m_begin arc_angle < crit_angles ! K \<and> crit_angles ! K < m_end arc_angle
             else m_end arc_angle < crit_angles ! K \<and> crit_angles ! K < m_begin arc_angle)
      in if should_split then
           let end_pt = vec2_add center (vec2_scale radius (crit_pts ! K)) in
           bind_r (add_tessellated_arc_segment prev_pt end_pt center radius
                     \<lparr> m_begin = prev_angle, m_end = crit_angles ! K \<rparr> twp d)
             (\<lambda>d'. add_arc_segment_loop rest center radius arc_angle
                      (crit_angles ! K, end_pt, False, d'))
         else add_arc_segment_loop rest center radius arc_angle (prev_angle, prev_pt, twp, d))"

definition add_arc_segment ::
  "vec2 \<Rightarrow> vec2 \<Rightarrow> vec2 \<Rightarrow> real \<Rightarrow> real range_type \<Rightarrow> segment list \<Rightarrow> error + segment list" where
  "add_arc_segment start end center radius arc_angle d =
     bind_r (add_arc_segment_loop [0 ..< 7] center radius arc_angle
               (m_begin arc_angle, start, False, d))
       (\<lambda>(prev_angle, prev_pt, tangent_with_predessor, d').
          add_tessellated_arc_segment prev_pt end center radius
            \<lparr> m_begin = prev_angle, m_end = m_end arc_angle \<rparr> tangent_with_predessor d')"


text \<open>
  An interpolator writes an edge through the two operations of \<^verbatim>\<open>SegmentStorage\<close> only,
  so what a call of \<^verbatim>\<open>produce_tessellation\<close> or \<^verbatim>\<open>resume_tessellation\<close> does to the
  storage is the sequence of its calls.
\<close>

datatype storage_call =
    add_line_segment_call vec2 vec2
  | add_arc_segment_call vec2 vec2 vec2 real "real range_type"

fun run_storage_calls :: "storage_call list \<Rightarrow> segment list \<Rightarrow> error + segment list" where
  "run_storage_calls [] d = Inr d"
| "run_storage_calls (add_line_segment_call start end # cs) d =
     run_storage_calls cs (add_line_segment start end d)"
| "run_storage_calls (add_arc_segment_call start end center radius arc_angle # cs) d =
     bind_r (add_arc_segment start end center radius arc_angle d) (run_storage_calls cs)"

section \<open>TessellatedPathPrivate and its building state\<close>

datatype edge_type_t = starts_new_edge | continues_edge

record TessellationParams =
  m_max_distance :: real
  m_max_recursion :: nat
  m_allow_arcs :: bool

text \<open>
  The virtual interface of path.hpp. A \<open>tessellation_state\<close> is an object with the
  method \<^verbatim>\<open>recursion_depth\<close> and the method \<^verbatim>\<open>resume_tessellation\<close>, which writes an
  edge to the storage, reports a distance bound and changes the object: the embedding
  returns the calls made on the storage, the bound and the object as the call leaves it.
  An interpolator has its edge type and \<^verbatim>\<open>produce_tessellation\<close>, which returns the
  calls, the bound and the tessellation state (\<open>None\<close> is \<^verbatim>\<open>nullptr\<close>).
\<close>

codatatype tessellation_state =
  tessellation_state
    (recursion_depth: nat)
    (resume_tessellation: "TessellationParams \<Rightarrow> storage_call list \<times> real \<times> tessellation_state")

record interpolator_base =
  edge_type :: edge_type_t
  produce_tessellation ::
    "TessellationParams \<Rightarrow> storage_call list \<times> real \<times> tessellation_state option"

text \<open>
  A \<^verbatim>\<open>PathContour\<close> is read through \<^verbatim>\<open>number_points()\<close> and \<^verbatim>\<open>interpolator(e)\<close>, a
  \<^verbatim>\<open>Path\<close> through \<^verbatim>\<open>number_contours()\<close> and \<^verbatim>\<open>contour(o)\<close>: the list of the
  interpolators of a contour, and the list of the contours.
\<close>

type_synonym PathContour = "interpolator_base list"

type_synonym Path = "PathContour list"

record PerEdge =
  m_tess_state :: "tessellation_state option"
  m_interpolator :: interpolator_base

record PerContour =
  m_edges :: "PerEdge list"

record Edge =
  m_edge_range :: "nat range_type"
  m_edge_type :: edge_type_t

text \<open>The value of an \<open>Edge\<close> that \<^verbatim>\<open>resize\<close> creates; both fields are assigned later.\<close>

definition Edge_fresh :: Edge where
  "Edge_fresh = \<lparr> m_edge_range = \<lparr> m_begin = 0, m_end = 0 \<rparr>, m_edge_type = starts_new_edge \<rparr>"

text \<open>
  Modelled from the spec: \<^verbatim>\<open>BoundingBox<float>\<close> (private/bounding\_box.hpp) is not among
  the sources. It is the running bounding box: empty at first, and \<open>union_point\<close> grows it
  to contain a point.
\<close>

record BoundingBox =
  m_min :: vec2
  m_max :: vec2
  m_empty :: bool

definition BoundingBox_init :: BoundingBox where
  "BoundingBox_init = \<lparr> m_min = (0, 0), m_max = (0, 0), m_empty = True \<rparr>"

definition union_point :: "vec2 \<Rightarrow> BoundingBox \<Rightarrow> BoundingBox" where
  "union_point p BB =
     (if m_empty BB then \<lparr> m_min = p, m_max = p, m_empty = False \<rparr>
      else \<lparr> m_min = (min (fst (m_min BB)) (fst p), min (snd (m_min BB)) (snd p)),
             m_max = (max (fst (m_max BB)) (fst p), max (snd (m_max BB)) (snd p)),
             m_empty = False \<rparr>)"

text \<open>
  The companion \<^verbatim>\<open>Path m_path\<close> is written with \<^verbatim>\<open>operator<<\<close> only; class \<^verbatim>\<open>Path\<close>
  is declared in path.hpp and its operators are not among the sources, so the embedding
  keeps the sequence of the operands.
\<close>

datatype path_operand =
    operand_point vec2
  | operand_edge_type edge_type_t
  | operand_arc real vec2
  | operand_contour_end
  | operand_contour_end_arc real

text \<open>
  \<open>m_stroked\<close> and \<open>m_filled\<close> are reference counted pointers: \<open>None\<close> is the null
  pointer, \<open>Some a\<close> the object at address \<open>a\<close>.
\<close>

record TessellatedPathPrivate =
  m_edges :: "Edge list list"
  m_segment_data :: "segment list"
  m_bounding_box :: BoundingBox
  m_params :: TessellationParams
  m_max_distance :: real
  m_has_arcs :: bool
  m_max_segments :: nat
  m_max_recursion :: nat
  m_stroked :: "nat option"
  m_filled :: "nat option"
  m_path :: "path_operand list"

text \<open>
  \<open>m_temp\<close> is the \<^verbatim>\<open>std::list\<close> of the edges' vectors; the iterator \<open>m_start_contour\<close>
  is the position of its element in \<open>m_temp\<close>, and \<open>None\<close> before its first assignment
  (the constructor of the building state initialises \<open>m_loc\<close> only; the other fields are
  written by \<open>start_contour\<close> before they are read).
\<close>

record TessellatedPathBuildingState =
  m_loc :: nat
  m_ende :: nat
  m_temp :: "segment list list"
  m_contour_length :: real
  m_open_contour_length :: real
  m_closed_contour_length :: real
  m_start_contour :: "nat option"

definition TessellatedPathBuildingState_init :: TessellatedPathBuildingState where
  "TessellatedPathBuildingState_init =
     \<lparr> m_loc = 0, m_ende = 0, m_temp = [], m_contour_length = 0, m_open_contour_length = 0,
       m_closed_contour_length = 0, m_start_contour = None \<rparr>"

definition union_segment :: "segment \<Rightarrow> BoundingBox \<Rightarrow> BoundingBox" where
  "union_segment S BB =
     (let BB1 = union_point (m_end_pt S) (union_point (m_start_pt S) BB) in
      if m_type S = arc_segment then
        let half_angle = float_mul 0.5 (float_sub (m_end (m_arc_angle S)) (m_begin (m_arc_angle S)));
            c = t_cos (float_add (m_begin (m_arc_angle S)) half_angle);
            s = t_sin (float_add (m_begin (m_arc_angle S)) half_angle);
            l = float_sub 1 (t_cos half_angle);
            tau = vec2_scale l (c, s)
        in union_point (vec2_add (m_end_pt S) tau) (union_point (vec2_add (m_start_pt S) tau) BB1)
      else BB1)"

definition compute_local_segment_values :: "segment \<Rightarrow> segment" where
  "compute_local_segment_values S =
     (if m_type S = line_segment then
        let delta = vec2_sub (m_end_pt S) (m_start_pt S);
            len = magnitude delta;
            delta' = (if len > 0 then vec2_div delta len else (1, 0))
        in S \<lparr> m_length := len, m_enter_segment_unit_vector := delta',
               m_leaving_segment_unit_vector := delta' \<rparr>
      else
        let sgn = (if m_begin (m_arc_angle S) < m_end (m_arc_angle S) then 1 else - 1) in
        S \<lparr> m_length :=
              float_mul \<bar>float_sub (m_end (m_arc_angle S)) (m_begin (m_arc_angle S))\<bar> (m_radius S),
            m_enter_segment_unit_vector :=
              vec2_scale sgn (- t_sin (m_begin (m_arc_angle S)), t_cos (m_begin (m_arc_angle S))),
            m_leaving_segment_unit_vector :=
              vec2_scale sgn (- t_sin (m_end (m_arc_angle S)), t_cos (m_end (m_arc_angle S))) \<rparr>)"

definition add_segment_to_path :: "bool \<Rightarrow> segment \<Rightarrow> path_operand list \<Rightarrow> path_operand list" where
  "add_segment_to_path last_segment S path =
     (if last_segment then
        (if m_type S = arc_segment
         then path @ [operand_contour_end_arc
                        (float_sub (m_end (m_arc_angle S)) (m_begin (m_arc_angle S)))]
         else path @ [operand_contour_end])
      else
        (if m_type S = arc_segment
         then path @ [operand_arc (float_sub (m_end (m_arc_angle S)) (m_begin (m_arc_angle S)))
                        (m_end_pt S)]
         else path @ [operand_point (m_end_pt S)]))"

definition TessellatedPathPrivate_init :: "nat \<Rightarrow> TessellationParams \<Rightarrow> TessellatedPathPrivate" where
  "TessellatedPathPrivate_init num_contours TP =
     \<lparr> m_edges = replicate num_contours [], m_segment_data = [],
       m_bounding_box = BoundingBox_init, m_params = TP, m_max_distance = 0,
       m_has_arcs = False, m_max_segments = 0, m_max_recursion = 0,
       m_stroked = None, m_filled = None, m_path = [] \<rparr>"

text \<open>\<^verbatim>\<open>std::vector::resize\<close> on a vector of \<open>Edge\<close>.\<close>

definition resize :: "nat \<Rightarrow> Edge list \<Rightarrow> Edge list" where
  "resize n xs = take n xs @ replicate (n - length xs) Edge_fresh"

definition start_contour ::
  "TessellatedPathBuildingState \<Rightarrow> TessellatedPathPrivate \<Rightarrow> nat \<Rightarrow> nat
     \<Rightarrow> error + (TessellatedPathPrivate \<times> TessellatedPathBuildingState)" where
  "start_contour b d o' num_edges =
     (if o' < length (m_edges d) then
        Inr (d \<lparr> m_edges := (m_edges d) [o' := resize num_edges (m_edges d ! o')] \<rparr>,
             b \<lparr> m_contour_length := 0, m_open_contour_length := 0,
                 m_closed_contour_length := 0, m_ende := num_edges \<rparr>)
      else Inl UndefinedBehaviour)"

text \<open>
  The first loop of \<open>add_edge\<close>, \<^verbatim>\<open>for (n = 0; n < work_room.size(); ++n)\<close>, over the
  segments still to come. \<open>prev\<close> is \<^verbatim>\<open>work_room[n - 1]\<close> as the loop left it, and \<open>None\<close>
  when \<open>n = 0\<close>; the segments are returned as the loop leaves them.
\<close>

fun add_edge_loop ::
  "bool \<Rightarrow> segment option \<Rightarrow> segment list
     \<Rightarrow> TessellatedPathPrivate \<times> TessellatedPathBuildingState
     \<Rightarrow> segment list \<times> TessellatedPathPrivate \<times> TessellatedPathBuildingState" where
  "add_edge_loop is_closing_edge prev [] st = ([], st)"
| "add_edge_loop is_closing_edge prev (S # rest) (d, builder) =
     (let d1 = d \<lparr> m_has_arcs := (m_has_arcs d \<or> m_type S = arc_segment),
                   m_bounding_box := union_segment S (m_bounding_box d) \<rparr>;
          S1 = compute_local_segment_values S;
          S2 = S1 \<lparr> m_distance_from_edge_start :=
                      (case prev of
                         Some P \<Rightarrow> float_add (m_distance_from_edge_start P) (m_length P)
                       | None \<Rightarrow> 0) \<rparr>;
          S3 = S2 \<lparr> m_distance_from_contour_start := m_contour_length builder \<rparr>;
          builder1 = builder \<lparr> m_contour_length :=
                                float_add (m_contour_length builder) (m_length S3) \<rparr>;
          d2 = (case prev of
                  Some P \<Rightarrow> d1 \<lparr> m_path := m_path d1 @ [operand_edge_type continues_edge] \<rparr>
                | None \<Rightarrow> d1);
          d3 = d2 \<lparr> m_path := add_segment_to_path (is_closing_edge \<and> rest = []) S3 (m_path d2) \<rparr>;
          (rest', st') = add_edge_loop is_closing_edge (Some S3) rest (d3, builder1)
      in (S3 # rest', st'))"

text \<open>
  \<open>add_edge\<close>. Its counters are \<^verbatim>\<open>unsigned int\<close>: \<open>needed\<close> is the size of the vector
  modulo \<open>2^32\<close>. With \<open>2^32\<close> segments or more and \<open>needed > 0\<close> the counter \<open>n\<close> of the
  first loop cannot reach the size, and the loop does not end: \<open>DoesNotReturn\<close>.
  Indexing \<open>m_edges\<close> outside its bounds is undefined.
\<close>

definition add_edge ::
  "TessellatedPathBuildingState \<Rightarrow> TessellatedPathPrivate \<Rightarrow> nat \<Rightarrow> nat \<Rightarrow> segment list
     \<Rightarrow> real \<Rightarrow> bool \<Rightarrow> error + (TessellatedPathPrivate \<times> TessellatedPathBuildingState)" where
  "add_edge builder d o' e work_room edge_max_distance is_closing_edge =
     (let needed = u32 (length work_room) in
      if \<not> (o' < length (m_edges d) \<and> e < length (m_edges d ! o')) then Inl UndefinedBehaviour
      else
        let d1 = d \<lparr> m_edges := (m_edges d)
                     [o' := (m_edges d ! o')
                        [e := (m_edges d ! o' ! e)
                           \<lparr> m_edge_range :=
                               \<lparr> m_begin = m_loc builder,
                                 m_end = u32 (m_loc builder + needed) \<rparr> \<rparr>]] \<rparr>;
            builder1 = builder \<lparr> m_loc := u32 (m_loc builder + needed) \<rparr>
        in
        if \<not> needed > 0 then Inl AssertionFailure
        else if \<not> length work_room < 4294967296 then Inl DoesNotReturn
        else
          let d2 = d1 \<lparr> m_max_segments := max (m_max_segments d1) needed,
                        m_max_distance := max (m_max_distance d1) edge_max_distance \<rparr>;
              d3 = (if e = 0
                    then d2 \<lparr> m_path := m_path d2 @ [operand_point (m_start_pt (hd work_room))] \<rparr>
                    else d2);
              (work_room1, d4, builder2) = add_edge_loop is_closing_edge None work_room (d3, builder1);
              edge_length = float_add (m_distance_from_edge_start (last work_room1))
                              (m_length (last work_room1));
              work_room2 = map (\<lambda>S. S \<lparr> m_edge_length := edge_length \<rparr>) work_room1;
              builder3 =
                (if u32 (e + 2) = m_ende builder2
                 then builder2 \<lparr> m_open_contour_length := m_contour_length builder2 \<rparr>
                 else if u32 (e + 1) = m_ende builder2
                 then builder2 \<lparr> m_closed_contour_length := m_contour_length builder2 \<rparr>
                 else builder2);
              builder4 = builder3 \<lparr> m_temp := m_temp builder3 @ [work_room2] \<rparr>;
              builder5 = (if e = 0
                          then builder4 \<lparr> m_start_contour := Some (length (m_temp builder3)) \<rparr>
                          else builder4)
          in Inr (d4, builder5))"

text \<open>
  \<open>end_contour\<close>. Reading \<open>m_start_contour\<close> before its first assignment is undefined.
\<close>

definition end_contour :: "TessellatedPathBuildingState \<Rightarrow> error + TessellatedPathBuildingState" where
  "end_contour builder =
     (case m_start_contour builder of
        None \<Rightarrow> Inl UndefinedBehaviour
      | Some t \<Rightarrow>
          if t = length (m_temp builder) then Inr builder
          else Inr (builder \<lparr> m_temp :=
                      take t (m_temp builder) @
                      map (map (\<lambda>S. S \<lparr> segment.m_open_contour_length := m_open_contour_length builder,
                                         segment.m_closed_contour_length :=
                                           m_closed_contour_length builder \<rparr>))
                        (drop t (m_temp builder)) \<rparr>))"

text \<open>
  \<open>finalize\<close>. \<^verbatim>\<open>m_edges.back().back()\<close> on an empty vector is undefined.
\<close>

definition finalize ::
  "TessellatedPathBuildingState \<Rightarrow> TessellatedPathPrivate \<Rightarrow> error + TessellatedPathPrivate" where
  "finalize b d =
     (if m_edges d = [] \<or> last (m_edges d) = [] then Inl UndefinedBehaviour
      else
        let total_needed = m_end (m_edge_range (last (last (m_edges d))));
            d1 = d \<lparr> m_segment_data := m_segment_data d @ concat (m_temp b) \<rparr>
        in if total_needed = length (m_segment_data d1) then Inr d1 else Inl AssertionFailure)"


section \<open>The constructors of TessellatedPath and the Refiner\<close>

record RefinerPrivate =
  m_path :: TessellatedPathPrivate
  m_contours :: "PerContour list"

text \<open>
  Both constructors run the same two nested loops; they differ in the virtual call that
  tessellates an edge. In the embedding a virtual call is a function without effect on
  the path under construction, so what the loop body needs of it is collected in an
  \<open>edge_job\<close>: the calls it makes on the storage, the distance bound \<^verbatim>\<open>tmp\<close>, the
  recursion depth it reports (\<open>None\<close> when the body does not read one) and the edge type
  of the interpolator.
\<close>

record edge_job =
  job_calls :: "storage_call list"
  job_max_distance :: real
  job_recursion_depth :: "nat option"
  job_edge_type :: edge_type_t

text \<open>
  The body of the loop over the edges \<open>e\<close> of contour \<open>o\<close>: the storage calls fill
  \<open>work_room\<close> (empty before each edge, since \<open>add_edge\<close> swaps it away),
  \<open>m_max_recursion\<close> is raised, \<open>add_edge\<close> runs, the edge type is stored.
\<close>

fun edge_loop ::
  "nat \<Rightarrow> nat \<Rightarrow> nat \<Rightarrow> edge_job list
     \<Rightarrow> TessellatedPathPrivate \<times> TessellatedPathBuildingState
     \<Rightarrow> error + (TessellatedPathPrivate \<times> TessellatedPathBuildingState)" where
  "edge_loop o' e ende [] st = Inr st"
| "edge_loop o' e ende (job # jobs) (d, builder) =
     bind_r (run_storage_calls (job_calls job) []) (\<lambda>work_room.
       let d1 = (case job_recursion_depth job of
                   Some depth \<Rightarrow> d \<lparr> m_max_recursion := max (m_max_recursion d) depth \<rparr>
                 | None \<Rightarrow> d)
       in bind_r (add_edge builder d1 o' e work_room (job_max_distance job) (e + 1 = ende))
            (\<lambda>(d2, builder2).
               edge_loop o' (e + 1) ende jobs
                 (d2 \<lparr> TessellatedPathPrivate.m_edges := (TessellatedPathPrivate.m_edges d2)
                        [o' := (TessellatedPathPrivate.m_edges d2 ! o')
                           [e := (TessellatedPathPrivate.m_edges d2 ! o' ! e)
                              \<lparr> m_edge_type := job_edge_type job \<rparr>]] \<rparr>,
                  builder2)))"

fun contour_loop ::
  "nat \<Rightarrow> edge_job list list
     \<Rightarrow> TessellatedPathPrivate \<times> TessellatedPathBuildingState
     \<Rightarrow> error + (TessellatedPathPrivate \<times> TessellatedPathBuildingState)" where
  "contour_loop o' [] st = Inr st"
| "contour_loop o' (contour # contours) (d, builder) =
     bind_r (start_contour builder d o' (length contour)) (\<lambda>(d1, builder1).
       bind_r (edge_loop o' 0 (length contour) contour (d1, builder1)) (\<lambda>(d2, builder2).
         bind_r (end_contour builder2) (\<lambda>builder3.
           contour_loop (o' + 1) contours (d2, builder3))))"

text \<open>
  The part the two constructors share: the private object is created, the constructor
  returns at once when there is no contour, otherwise the loops run and \<open>finalize\<close>
  copies the segments.
\<close>

definition tessellate_contours ::
  "TessellationParams \<Rightarrow> edge_job list list \<Rightarrow> error + TessellatedPathPrivate" where
  "tessellate_contours params contours =
     (let d = TessellatedPathPrivate_init (length contours) params in
      if contours = [] then Inr d
      else bind_r (contour_loop 0 contours (d, TessellatedPathBuildingState_init))
             (\<lambda>(d', builder). finalize builder d'))"

definition path_edge_job :: "TessellationParams \<Rightarrow> interpolator_base \<Rightarrow> edge_job" where
  "path_edge_job params interpolator =
     (let (calls, tmp, tess_state) = produce_tessellation interpolator params in
      \<lparr> job_calls = calls, job_max_distance = tmp,
        job_recursion_depth = map_option recursion_depth tess_state,
        job_edge_type = edge_type interpolator \<rparr>)"

definition path_per_edge :: "TessellationParams \<Rightarrow> interpolator_base \<Rightarrow> PerEdge" where
  "path_per_edge params interpolator =
     \<lparr> m_tess_state = snd (snd (produce_tessellation interpolator params)),
       m_interpolator = interpolator \<rparr>"

text \<open>
  \<^verbatim>\<open>TessellatedPath(const Path &input, TessellationParams TP, reference_counted_ptr<Refiner> *ref)\<close>.
  \<open>want_ref\<close> says that \<open>ref\<close> is not null. The result is the private object of the new
  path and the Refiner written to \<open>*ref\<close>, if any: none is made for a path without
  contours. The Refiner holds a pointer to the new path; it is embedded by the value of
  the path when the constructor returns.
\<close>

definition path_jobs :: "TessellationParams \<Rightarrow> Path \<Rightarrow> edge_job list list" where
  "path_jobs TP input = map (map (path_edge_job TP)) input"

definition TessellatedPath_of_Path ::
  "Path \<Rightarrow> TessellationParams \<Rightarrow> bool \<Rightarrow> error + (TessellatedPathPrivate \<times> RefinerPrivate option)" where
  "TessellatedPath_of_Path input TP want_ref =
     bind_r (tessellate_contours TP (path_jobs TP input)) (\<lambda>d.
       Inr (d, if input \<noteq> [] \<and> want_ref
               then Some \<lparr> m_path = d,
                           m_contours = map (\<lambda>contour. \<lparr> PerContour.m_edges =
                                          map (path_per_edge TP) contour \<rparr>) input \<rparr>
               else None))"

definition refiner_edge_job :: "TessellationParams \<Rightarrow> PerEdge \<Rightarrow> edge_job" where
  "refiner_edge_job params edge =
     (case m_tess_state edge of
        Some ts \<Rightarrow>
          (let (calls, tmp, ts') = resume_tessellation ts params in
           \<lparr> job_calls = calls, job_max_distance = tmp,
             job_recursion_depth = Some (recursion_depth ts'),
             job_edge_type = edge_type (m_interpolator edge) \<rparr>)
      | None \<Rightarrow>
          (let (calls, tmp, tess_state) = produce_tessellation (m_interpolator edge) params in
           \<lparr> job_calls = calls, job_max_distance = tmp,
             job_recursion_depth = None,
             job_edge_type = edge_type (m_interpolator edge) \<rparr>))"

definition refiner_per_edge :: "TessellationParams \<Rightarrow> PerEdge \<Rightarrow> PerEdge" where
  "refiner_per_edge params edge =
     (case m_tess_state edge of
        Some ts \<Rightarrow> edge \<lparr> m_tess_state := Some (snd (snd (resume_tessellation ts params))) \<rparr>
      | None \<Rightarrow> edge)"


definition max_recursion :: "TessellatedPathPrivate \<Rightarrow> nat" where
  "max_recursion d = TessellatedPathPrivate.m_max_recursion d"

definition tessellation_parameters :: "TessellatedPathPrivate \<Rightarrow> TessellationParams" where
  "tessellation_parameters d = m_params d"

text \<open>
  \<^verbatim>\<open>TessellatedPath(Refiner *p, float max_distance, unsigned int additional_recursion_count)\<close>:
  the new private object, and the contours of the Refiner with the tessellation states
  as \<^verbatim>\<open>resume_tessellation\<close> leaves them.
\<close>

definition refiner_params :: "RefinerPrivate \<Rightarrow> real \<Rightarrow> nat \<Rightarrow> TessellationParams" where
  "refiner_params ref_d max_dist additional_recursion_count =
     \<lparr> TessellationParams.m_max_distance = max_dist,
       TessellationParams.m_max_recursion =
         u32 (max_recursion (m_path ref_d) + additional_recursion_count),
       m_allow_arcs = m_allow_arcs (tessellation_parameters (m_path ref_d)) \<rparr>"

definition refiner_jobs :: "TessellationParams \<Rightarrow> RefinerPrivate \<Rightarrow> edge_job list list" where
  "refiner_jobs params ref_d =
     map (\<lambda>contour. map (refiner_edge_job params) (PerContour.m_edges contour)) (m_contours ref_d)"

definition TessellatedPath_of_Refiner ::
  "RefinerPrivate \<Rightarrow> real \<Rightarrow> nat \<Rightarrow> error + (TessellatedPathPrivate \<times> PerContour list)" where
  "TessellatedPath_of_Refiner ref_d max_dist additional_recursion_count =
     (let params = refiner_params ref_d max_dist additional_recursion_count
      in bind_r (tessellate_contours params (refiner_jobs params ref_d))
           (\<lambda>d. Inr (d, map (\<lambda>contour. \<lparr> PerContour.m_edges =
                                map (refiner_per_edge params) (PerContour.m_edges contour) \<rparr>)
                           (m_contours ref_d))))"


section \<open>The query surface of TessellatedPath\<close>

definition segment_data :: "TessellatedPathPrivate \<Rightarrow> segment list" where
  "segment_data d = m_segment_data d"

definition number_contours :: "TessellatedPathPrivate \<Rightarrow> nat" where
  "number_contours d = length (TessellatedPathPrivate.m_edges d)"

definition number_edges :: "TessellatedPathPrivate \<Rightarrow> nat \<Rightarrow> nat" where
  "number_edges d contour = length (TessellatedPathPrivate.m_edges d ! contour)"

definition edge_range :: "TessellatedPathPrivate \<Rightarrow> nat \<Rightarrow> nat \<Rightarrow> nat range_type" where
  "edge_range d contour edge = m_edge_range (TessellatedPathPrivate.m_edges d ! contour ! edge)"

definition contour_range :: "TessellatedPathPrivate \<Rightarrow> nat \<Rightarrow> nat range_type" where
  "contour_range d contour =
     \<lparr> m_begin = m_begin (m_edge_range (hd (TessellatedPathPrivate.m_edges d ! contour))),
       m_end = m_end (m_edge_range (last (TessellatedPathPrivate.m_edges d ! contour))) \<rparr>"

text \<open>
  Modelled from the spec: \<^verbatim>\<open>c_array::sub_array\<close> (c\_array.hpp) is not among the sources.
  It is the part of the buffer that a range of indices names, from \<open>m_begin\<close> up to but
  not including \<open>m_end\<close>.
\<close>

definition sub_array :: "nat range_type \<Rightarrow> 'a list \<Rightarrow> 'a list" where
  "sub_array R xs = take (m_end R - m_begin R) (drop (m_begin R) xs)"

definition edge_segment_data :: "TessellatedPathPrivate \<Rightarrow> nat \<Rightarrow> nat \<Rightarrow> segment list" where
  "edge_segment_data d contour edge = sub_array (edge_range d contour edge) (m_segment_data d)"

definition contour_segment_data :: "TessellatedPathPrivate \<Rightarrow> nat \<Rightarrow> segment list" where
  "contour_segment_data d contour = sub_array (contour_range d contour) (m_segment_data d)"

text \<open>
  \<open>stroked\<close> and \<open>filled\<close>. \<^verbatim>\<open>FASTUIDRAWnew\<close> makes a new object: \<open>heap\<close> counts the
  objects made so far, and the new object gets the next address. The result is the
  pointer returned, the private object and the heap after the call.
\<close>

definition stroked :: "TessellatedPathPrivate \<times> nat \<Rightarrow> nat option \<times> TessellatedPathPrivate \<times> nat" where
  "stroked st =
     (let (d, heap) = st in
      if m_stroked d = None
      then (Some heap, d \<lparr> m_stroked := Some heap \<rparr>, heap + 1)
      else (m_stroked d, d, heap))"

definition filled :: "TessellatedPathPrivate \<times> nat \<Rightarrow> nat option \<times> TessellatedPathPrivate \<times> nat" where
  "filled st =
     (let (d, heap) = st in
      if m_filled d = None \<and> \<not> m_has_arcs d
      then (Some heap, d \<lparr> m_filled := Some heap \<rparr>, heap + 1)
      else (m_filled d, d, heap))"


section \<open>Properties\<close>

text \<open>
  A tessellated path is what one of the two constructors returns. \<open>TessellatedPath jobs d\<close>
  says that \<open>d\<close> is the private object of such a path and that \<open>jobs\<close> are the edge jobs
  of its contours: what the interpolators, or the tessellation states of the Refiner,
  wrote for each edge.
\<close>

inductive TessellatedPath :: "edge_job list list \<Rightarrow> TessellatedPathPrivate \<Rightarrow> bool" where
  of_Path:
    "TessellatedPath_of_Path input TP want_ref = Inr (d, r) \<Longrightarrow>
     TessellatedPath (path_jobs TP input) d"
| of_Refiner:
    "TessellatedPath_of_Refiner ref_d max_dist additional_recursion_count = Inr (d, contours) \<Longrightarrow>
     TessellatedPath
       (refiner_jobs (refiner_params ref_d max_dist additional_recursion_count) ref_d) d"

text \<open>Consecutive segments of a list meet: each one ends where the next one starts.\<close>

fun contiguous :: "segment list \<Rightarrow> bool" where
  "contiguous (x # y # r) = (m_end_pt x = m_start_pt y \<and> contiguous (y # r))"
| "contiguous _ = True"

text \<open>
  The angles along a list of arc segments written with the step \<open>da\<close>: the first begins
  at \<open>theta\<close>, each one ends at its begin plus the step, added in \<^verbatim>\<open>float\<close>, and the next
  one begins there.
\<close>

fun angle_chain :: "real \<Rightarrow> real \<Rightarrow> segment list \<Rightarrow> bool" where
  "angle_chain theta da [] = True"
| "angle_chain theta da (S # r) =
     (m_arc_angle S = \<lparr> m_begin = theta, m_end = float_add theta da \<rparr>
      \<and> angle_chain (float_add theta da) da r)"

text \<open>
  The calls of an interpolator form a chain: each call starts at the point where the
  call before it ended.
\<close>

fun call_start :: "storage_call \<Rightarrow> vec2" where
  "call_start (add_line_segment_call start end) = start"
| "call_start (add_arc_segment_call start end center radius arc_angle) = start"

fun call_end :: "storage_call \<Rightarrow> vec2" where
  "call_end (add_line_segment_call start end) = end"
| "call_end (add_arc_segment_call start end center radius arc_angle) = end"

fun calls_chained :: "storage_call list \<Rightarrow> bool" where
  "calls_chained (c1 # c2 # cs) = (call_end c1 = call_start c2 \<and> calls_chained (c2 # cs))"
| "calls_chained _ = True"

text \<open>
  The distances from the start of the edge along a list of segments: the first is \<open>x\<close>,
  and each next one is the distance of the segment before it plus its length, added in
  \<^verbatim>\<open>float\<close>.
\<close>

fun dist_chain :: "real \<Rightarrow> segment list \<Rightarrow> bool" where
  "dist_chain x [] = True"
| "dist_chain x (S # r) =
     (m_distance_from_edge_start S = x \<and> dist_chain (float_add x (m_length S)) r)"

text \<open>
  What \<open>add_edge\<close> establishes for the segments of one edge: there is a segment, the
  distances from the start of the edge run from 0, and every segment carries the length
  of the edge.
\<close>

definition edge_local :: "segment list \<Rightarrow> bool" where
  "edge_local v \<longleftrightarrow> v \<noteq> [] \<and> dist_chain 0 v \<and>
     (\<forall>S \<in> set v. m_edge_length S
                      = float_add (m_distance_from_edge_start (last v)) (m_length (last v)))"

text \<open>
  The segments \<open>v\<close> stored for an edge come from the job of the edge: they are the
  segments its storage calls wrote, with the same points, types and angles.
\<close>

definition edge_of_job :: "edge_job \<Rightarrow> segment list \<Rightarrow> bool" where
  "edge_of_job job v \<longleftrightarrow>
     (\<exists>raw. run_storage_calls (job_calls job) [] = Inr raw
        \<and> map m_start_pt v = map m_start_pt raw \<and> map m_end_pt v = map m_end_pt raw
        \<and> map m_type v = map m_type raw \<and> map m_arc_angle v = map m_arc_angle raw)
     \<and> edge_local v"

text \<open>
  The ranges that \<open>add_edge\<close> writes for a sequence of edges, starting with \<open>m_loc = loc\<close>
  and counting modulo \<open>2^32\<close> as the code does, and the value of \<open>m_loc\<close> after them.
\<close>

fun ranges_u32 :: "nat \<Rightarrow> segment list list \<Rightarrow> nat range_type list" where
  "ranges_u32 loc [] = []"
| "ranges_u32 loc (v # vs) =
     \<lparr> m_begin = loc, m_end = u32 (loc + length v) \<rparr> # ranges_u32 (u32 (loc + length v)) vs"

fun loc_after :: "nat \<Rightarrow> segment list list \<Rightarrow> nat" where
  "loc_after loc [] = loc"
| "loc_after loc (v # vs) = loc_after (u32 (loc + length v)) vs"

text \<open>
  The ranges of the edges of a contour, and of the contours of a path, when they lie one
  after another in a buffer from offset \<open>off\<close> on.
\<close>

fun edge_ranges :: "nat \<Rightarrow> segment list list \<Rightarrow> nat range_type list" where
  "edge_ranges off [] = []"
| "edge_ranges off (v # vs) =
     \<lparr> m_begin = off, m_end = off + length v \<rparr> # edge_ranges (off + length v) vs"

fun contour_ranges :: "nat \<Rightarrow> segment list list list \<Rightarrow> nat range_type list list" where
  "contour_ranges off [] = []"
| "contour_ranges off (g # G) = edge_ranges off g # contour_ranges (off + length (concat g)) G"

text \<open>
  The running sum of a list of lengths as the code takes it: from 0 on, each length is
  added in \<^verbatim>\<open>float\<close> to the sum so far.
\<close>

definition float_sum :: "real list \<Rightarrow> real" where
  "float_sum ls = foldl float_add 0 ls"

text \<open>
  Every segment of a contour carries, as its closed contour length, the running sum of
  the lengths of the segments of the contour.
\<close>

definition contour_closed :: "segment list list \<Rightarrow> bool" where
  "contour_closed g \<longleftrightarrow>
     (\<forall>S \<in> set (concat g).
        segment.m_closed_contour_length S = float_sum (map m_length (concat g)))"

text \<open>The assignment that \<open>end_contour\<close> makes to each segment of the contour.\<close>

definition set_contour_lengths :: "real \<Rightarrow> real \<Rightarrow> segment \<Rightarrow> segment" where
  "set_contour_lengths ol cl S =
     S \<lparr> segment.m_open_contour_length := ol, segment.m_closed_contour_length := cl \<rparr>"



text \<open>
  A sequence of calls of \<open>stroked\<close> and \<open>filled\<close> on one path: the references returned,
  in order, with the private object and the allocation counter after the last call.
\<close>

datatype accessor = call_stroked | call_filled

fun run_accessors ::
  "accessor list \<Rightarrow> TessellatedPathPrivate \<times> nat
     \<Rightarrow> nat option list \<times> TessellatedPathPrivate \<times> nat" where
  "run_accessors [] st = ([], st)"
| "run_accessors (call_stroked # cs) st =
     (let (r, st') = stroked st; (rs, st'') = run_accessors cs st' in (r # rs, st''))"
| "run_accessors (call_filled # cs) st =
     (let (r, st') = filled st; (rs, st'') = run_accessors cs st' in (r # rs, st''))"
section \<open>An example path\<close>

text \<open>
  An interpolator that writes the line segments through a start point and a list of
  further points, and a path of two contours made of three such edges.
\<close>

fun polyline_calls :: "vec2 \<Rightarrow> vec2 list \<Rightarrow> storage_call list" where
  "polyline_calls p [] = []"
| "polyline_calls p (q # qs) = add_line_segment_call p q # polyline_calls q qs"

definition polyline :: "vec2 \<Rightarrow> vec2 list \<Rightarrow> interpolator_base" where
  "polyline p qs =
     \<lparr> edge_type = starts_new_edge,
       produce_tessellation = (\<lambda>params. (polyline_calls p qs, 0, None)) \<rparr>"

definition example_path :: Path where
  "example_path =
     [[polyline (0, 0) [(1, 0), (1, 1)], polyline (1, 1) [(0, 0)]],
      [polyline (2, 0) [(3, 0), (2, 0)]]]"

definition example_params :: TessellationParams where
  "example_params =
     \<lparr> TessellationParams.m_max_distance = 1, TessellationParams.m_max_recursion = 5,
       m_allow_arcs = False \<rparr>"


text \<open>
  A curve whose first tessellation is two line segments at distance 1/2 from the curve,
  and whose saved state resumes with three line segments at distance 1/4.
\<close>

primcorec example_state :: "nat \<Rightarrow> tessellation_state" where
  "recursion_depth (example_state n) = n"
| "resume_tessellation (example_state n) =
     (\<lambda>params. (polyline_calls (0, 0) [(1, 1), (2, 0), (0, 0)], 1 / 4, example_state (n + 1)))"

definition example_curve :: interpolator_base where
  "example_curve =
     \<lparr> edge_type = starts_new_edge,
       produce_tessellation =
         (\<lambda>params. (polyline_calls (0, 0) [(2, 0), (0, 0)], 1 / 2, Some (example_state 1))) \<rparr>"

definition example_curve_path :: Path where
  "example_curve_path = [[example_curve]]"

definition example_curve_tessellated :: TessellatedPathPrivate where
  "example_curve_tessellated =
     fst (projr (TessellatedPath_of_Path example_curve_path example_params True))"


text \<open>
  A quarter of the unit circle, closed by a line segment. The end angle is the \<^verbatim>\<open>float\<close>
  nearest to \<open>\<pi>/2\<close>.
\<close>

definition quarter_arc :: interpolator_base where
  "quarter_arc =
     \<lparr> edge_type = starts_new_edge,
       produce_tessellation = (\<lambda>params.
         ([add_arc_segment_call (1, 0) (0, 1) (0, 0) 1 \<lparr> m_begin = 0, m_end = 13176795 / 8388608 \<rparr>],
          0, None)) \<rparr>"

definition example_arc_path :: Path where
  "example_arc_path = [[quarter_arc, polyline (0, 1) [(1, 0)]]]"

definition example_arc_tessellated :: TessellatedPathPrivate where
  "example_arc_tessellated =
     fst (projr (TessellatedPath_of_Path example_arc_path example_params False))"
section \<open>The sweep of the polygon tessellator (sweep.cpp)\<close>

text \<open>
  A vertex of the mesh, with the fields that the sweep reads: the coordinates \<open>s\<close> and
  \<open>t\<close> in the plane of the sweep and the client's id.
\<close>

record GLUvertex =
  s :: real
  t :: real
  client_id :: nat

text \<open>
  Modelled from the spec: the macros \<^verbatim>\<open>VertLeq\<close>, \<^verbatim>\<open>VertEq\<close> and \<^verbatim>\<open>VertL1dist\<close> (geom.hpp)
  are not among the sources. \<open>VertLeq\<close> is the lexicographic order on the coordinates,
  \<open>s\<close> first, as the comment in \<^verbatim>\<open>glu_fastuidraw_gl_computeInterior\<close> states it;
  \<open>VertEq\<close> is equality of the coordinates; \<open>VertL1dist\<close> is the distance in the 1-norm,
  computed in \<^verbatim>\<open>double\<close>.
\<close>

definition VertLeq :: "GLUvertex \<Rightarrow> GLUvertex \<Rightarrow> bool" where
  "VertLeq u v \<longleftrightarrow> s u < s v \<or> (s u = s v \<and> t u \<le> t v)"

definition VertEq :: "GLUvertex \<Rightarrow> GLUvertex \<Rightarrow> bool" where
  "VertEq u v \<longleftrightarrow> s u = s v \<and> t u = t v"






text \<open>
  Modelled from the spec: the priority queue (priorityq-sort.cpp) is not among the
  sources. It is a min-priority queue of vertices ordered by \<open>VertLeq\<close>: \<open>pqMinimum\<close>
  returns a least vertex, or nothing (\<^verbatim>\<open>nullptr\<close>) when the queue is empty, and
  \<open>pqExtractMin\<close> also removes it. The model keeps the pending vertices in a list.
\<close>

type_synonym PriorityQ = "GLUvertex list"

fun pqMinimum :: "PriorityQ \<Rightarrow> GLUvertex option" where
  "pqMinimum [] = None"
| "pqMinimum (x # xs) =
     (case pqMinimum xs of
        None \<Rightarrow> Some x
      | Some m \<Rightarrow> if VertLeq x m then Some x else Some m)"

definition pqExtractMin :: "PriorityQ \<Rightarrow> GLUvertex option \<times> PriorityQ" where
  "pqExtractMin pq =
     (case pqMinimum pq of
        None \<Rightarrow> (None, pq)
      | Some m \<Rightarrow> (Some m, remove1 m pq))"

text \<open>
  \<^verbatim>\<open>SpliceMergeVertices\<close> splices the mesh so that the origin of its first edge is kept
  and the origin of its second edge is discarded; \<^verbatim>\<open>glu_fastuidraw_gl_meshSplice\<close>
  (mesh.cpp) is not among the sources. The model keeps, for the vertex that is kept, the
  list of the vertices merged into it.
\<close>

definition SpliceMergeVertices :: "GLUvertex \<Rightarrow> GLUvertex \<Rightarrow> GLUvertex list \<Rightarrow> GLUvertex list" where
  "SpliceMergeVertices v vNext merged = merged @ [vNext]"

text \<open>
  The inner loop \<^verbatim>\<open>for( ;; )\<close> of \<^verbatim>\<open>glu_fastuidraw_gl_computeInterior\<close>: it returns the
  queue and the vertices merged into \<open>v\<close> when it leaves the loop. The second
  \<open>pqExtractMin\<close> cannot return \<^verbatim>\<open>nullptr\<close>, as \<open>pqMinimum\<close> has just returned a vertex.
\<close>

function merge_loop :: "GLUvertex \<Rightarrow> PriorityQ \<Rightarrow> GLUvertex list \<Rightarrow> PriorityQ \<times> GLUvertex list" where
  "merge_loop v pq merged =
     (case pqMinimum pq of
        None \<Rightarrow> (pq, merged)
      | Some vNext \<Rightarrow>
          if \<not> VertEq vNext v then (pq, merged)
          else (case pqExtractMin pq of
                  (None, pq') \<Rightarrow> (pq', merged)
                | (Some vNext', pq') \<Rightarrow> merge_loop v pq' (SpliceMergeVertices v vNext' merged)))"
  by pat_completeness auto
termination
proof -
  have mem: "pqMinimum q = Some m \<Longrightarrow> m \<in> set q" for q m
    by (induction q arbitrary: m) (auto split: option.splits if_splits)
  have dec: "length q' < length q" if "pqMinimum q = Some m" "(r, q') = pqExtractMin q"
    for q q' m r
  proof -
    have "q' = remove1 m q" "m \<in> set q"
      using that mem[of q m] by (simp_all add: pqExtractMin_def)
    then show ?thesis
      using length_pos_if_in_set[of m q] by (simp add: length_remove1)
  qed
  show ?thesis
    by (relation "measure (\<lambda>(v, pq, merged). length pq)") (simp, auto intro: dec)
qed

declare merge_loop.simps [simp del]

text \<open>
  The event loop \<^verbatim>\<open>while( (v = pqExtractMin( tess->pq )) != nullptr )\<close>. \<^verbatim>\<open>SweepEvent\<close>
  works on the mesh and the dictionary, which are not modelled; what it does to the queue
  (it inserts the vertices made at intersections and deletes vertices that it merges) is
  the parameter \<open>SweepEvent\<close>. For each iteration the model records the state in which
  \<^verbatim>\<open>SweepEvent\<close> is called: the event vertex \<open>v\<close>, the queue from which \<open>v\<close> has just been
  extracted, the vertices merged into \<open>v\<close>, and the queue at the call. The first argument
  bounds the number of iterations that are recorded.
\<close>

record sweep_call =
  call_event :: GLUvertex
  call_pending :: PriorityQ
  call_merged :: "GLUvertex list"
  call_pq :: PriorityQ

fun computeInterior_loop ::
  "nat \<Rightarrow> (GLUvertex \<Rightarrow> PriorityQ \<Rightarrow> PriorityQ) \<Rightarrow> PriorityQ \<Rightarrow> sweep_call list" where
  "computeInterior_loop 0 SweepEvent pq = []"
| "computeInterior_loop (Suc n) SweepEvent pq =
     (case pqExtractMin pq of
        (None, pq1) \<Rightarrow> []
      | (Some v, pq1) \<Rightarrow>
          (let (pq2, merged) = merge_loop v pq1 []
           in \<lparr> call_event = v, call_pending = pq1, call_merged = merged, call_pq = pq2 \<rparr>
              # computeInterior_loop n SweepEvent (SweepEvent v pq2)))"

text \<open>
  Example data for the sweep: a vertex from its coordinates and its client id, and for
  the parameter \<open>EdgeSign\<close> the sign of the distance of \<open>v\<close> from the edge \<open>u w\<close>
  (negative when \<open>v\<close> is below the edge).
\<close>

definition vertex :: "real \<Rightarrow> real \<Rightarrow> nat \<Rightarrow> GLUvertex" where
  "vertex x y c = \<lparr> s = x, t = y, client_id = c \<rparr>"


text \<open>
  A queue with three vertices at the origin, and for the parameter \<open>SweepEvent\<close> a function
  that, at the event with client id 2, inserts a second vertex at the point (1, 1).
\<close>

definition example_pq :: PriorityQ where
  "example_pq = [vertex 1 1 1, vertex 0 0 2, vertex 0 0 3, vertex 2 0 4, vertex 0 0 5]"

definition example_SweepEvent :: "GLUvertex \<Rightarrow> PriorityQ \<Rightarrow> PriorityQ" where
  "example_SweepEvent v pq = (if client_id v = 2 then pq @ [vertex 1 1 6] else pq)"

section \<open>Rounding\<close>

lemma round_even_of_int [simp]: "round_even (of_int n) = n"
  by (simp add: round_even_def)

lemma round_even_bounds: "of_int (round_even r) \<le> r + 1 / 2" "r - 1 / 2 \<le> of_int (round_even r)"
  by (auto simp: round_even_def Let_def) linarith+

lemma round_even_floor_le: "\<lfloor>r\<rfloor> \<le> round_even r" "round_even r \<le> \<lfloor>r\<rfloor> + 1"
  by (auto simp: round_even_def Let_def)

lemma round_even_mono:
  assumes "r \<le> r'"
  shows "round_even r \<le> round_even r'"
proof (cases "\<lfloor>r\<rfloor> = \<lfloor>r'\<rfloor>")
  case True
  then show ?thesis using assms by (auto simp: round_even_def Let_def)
next
  case False
  then have "\<lfloor>r\<rfloor> < \<lfloor>r'\<rfloor>" using floor_mono[OF assms] by linarith
  then have "round_even r \<le> \<lfloor>r'\<rfloor>" using round_even_floor_le(2)[of r] by linarith
  then show ?thesis using round_even_floor_le(1)[of r'] by linarith
qed

lemma round_even_minus: "round_even (- r) = - round_even r"
proof (cases "r = of_int \<lfloor>r\<rfloor>")
  case True
  then have "round_even (- of_int \<lfloor>r\<rfloor>) = - round_even (of_int \<lfloor>r\<rfloor>)"
    unfolding of_int_minus[symmetric] round_even_of_int by simp
  then show ?thesis using True by simp
next
  case False
  then have lt: "of_int \<lfloor>r\<rfloor> < r" using of_int_floor_le[of r] by linarith
  have fl: "\<lfloor>- r\<rfloor> = - \<lfloor>r\<rfloor> - 1"
    by (rule floor_unique) (use lt in \<open>simp_all\<close>, linarith)
  show ?thesis
    unfolding round_even_def Let_def fl using lt by (auto simp: algebra_simps)
qed

lemma fp_ulp_char:
  "\<exists>j \<le> n. fp_ulp n bound a u = u * 2 ^ j
      \<and> (j < n \<longrightarrow> a < bound * (u * 2 ^ j))
      \<and> (\<forall>i < j. bound * (u * 2 ^ i) \<le> a)"
proof (induction n arbitrary: u)
  case 0
  show ?case by simp
next
  case (Suc n)
  show ?case
  proof (cases "bound * u \<le> a")
    case False
    then show ?thesis by (intro exI[of _ 0]) simp
  next
    case True
    from Suc[of "2 * u"] obtain j where j: "j \<le> n" "fp_ulp n bound a (2 * u) = 2 * u * 2 ^ j"
      "j < n \<longrightarrow> a < bound * (2 * u * 2 ^ j)" "\<forall>i < j. bound * (2 * u * 2 ^ i) \<le> a"
      by blast
    have "\<forall>i < Suc j. bound * (u * 2 ^ i) \<le> a"
    proof (intro allI impI)
      fix i assume "i < Suc j"
      show "bound * (u * 2 ^ i) \<le> a"
      proof (cases i)
        case 0
        then show ?thesis using True by simp
      next
        case (Suc i')
        then have "i' < j" using \<open>i < Suc j\<close> by simp
        then show ?thesis using j(4) Suc by (simp add: mult.assoc mult.left_commute)
      qed
    qed
    then show ?thesis
      using j True by (intro exI[of _ "Suc j"]) (simp add: mult.assoc mult.left_commute)
  qed
qed

lemma fp_ulp_pos: "0 < u \<Longrightarrow> 0 < fp_ulp n bound a u"
  using fp_ulp_char[of n bound a u] by auto

lemma fp_round_0 [simp]: "fp_round n bound u0 0 = 0"
  by (simp add: fp_round_def round_even_def)

lemma fp_round_minus: "fp_round n bound u0 (- x) = - fp_round n bound u0 x"
  by (simp add: fp_round_def Let_def round_even_minus)

lemma fp_round_fixed:
  assumes u0: "0 < u0" and m: "\<bar>of_int m\<bar> < bound" and x: "x = of_int m * (u0 * 2 ^ k)"
  shows "fp_round n bound u0 x = x"
proof -
  obtain j where j: "fp_ulp n bound \<bar>x\<bar> u0 = u0 * 2 ^ j" "\<forall>i < j. bound * (u0 * 2 ^ i) \<le> \<bar>x\<bar>"
    using fp_ulp_char[of n bound "\<bar>x\<bar>" u0] by blast
  have jk: "j \<le> k"
  proof (rule ccontr)
    assume "\<not> j \<le> k"
    then have "k < j" by simp
    then have "bound * (u0 * 2 ^ k) \<le> \<bar>x\<bar>" using j(2) by blast
    also have "\<bar>x\<bar> = \<bar>of_int m\<bar> * (u0 * 2 ^ k)"
      using u0 by (simp add: x abs_mult)
    finally show False using m u0 by simp
  qed
  define q where "q = k - j"
  have k: "k = j + q" using jk by (simp add: q_def)
  have "x / (u0 * 2 ^ j) = of_int (m * 2 ^ q)"
    using u0 by (simp add: x k power_add)
  then have "round_even (x / (u0 * 2 ^ j)) = m * 2 ^ q"
    by (simp only: round_even_of_int)
  moreover have "fp_round n bound u0 x
      = of_int (round_even (x / (u0 * 2 ^ j))) * (u0 * 2 ^ j)"
    by (simp add: fp_round_def Let_def j(1))
  ultimately have "fp_round n bound u0 x = of_int (m * 2 ^ q) * (u0 * 2 ^ j)"
    by simp
  then show ?thesis by (simp add: x k power_add)
qed

lemma fp_round_mono_nonneg:
  assumes u0: "0 < u0" and K: "bound = of_int (2 * K)" "0 < K" and xy: "0 \<le> x" "x \<le> y"
  shows "fp_round n bound u0 x \<le> fp_round n bound u0 y"
proof -
  obtain jx where jx: "jx \<le> n" "fp_ulp n bound \<bar>x\<bar> u0 = u0 * 2 ^ jx"
    "jx < n \<longrightarrow> \<bar>x\<bar> < bound * (u0 * 2 ^ jx)" "\<forall>i < jx. bound * (u0 * 2 ^ i) \<le> \<bar>x\<bar>"
    using fp_ulp_char[of n bound "\<bar>x\<bar>" u0] by blast
  obtain jy where jy: "jy \<le> n" "fp_ulp n bound \<bar>y\<bar> u0 = u0 * 2 ^ jy"
    "jy < n \<longrightarrow> \<bar>y\<bar> < bound * (u0 * 2 ^ jy)" "\<forall>i < jy. bound * (u0 * 2 ^ i) \<le> \<bar>y\<bar>"
    using fp_ulp_char[of n bound "\<bar>y\<bar>" u0] by blast
  have le: "jx \<le> jy"
  proof (rule ccontr)
    assume "\<not> jx \<le> jy"
    then have lt: "jy < jx" by simp
    then have "bound * (u0 * 2 ^ jy) \<le> \<bar>x\<bar>" using jx(4) by blast
    moreover have "\<bar>y\<bar> < bound * (u0 * 2 ^ jy)" using jy(3) lt jx(1) by simp
    ultimately show False using xy by simp
  qed
  define ux where "ux = u0 * 2 ^ jx"
  define uy where "uy = u0 * 2 ^ jy"
  have pos: "0 < ux" "0 < uy" using u0 by (simp_all add: ux_def uy_def)
  have fx: "fp_round n bound u0 x = of_int (round_even (x / ux)) * ux"
    by (simp add: fp_round_def Let_def jx(2) ux_def)
  have fy: "fp_round n bound u0 y = of_int (round_even (y / uy)) * uy"
    by (simp add: fp_round_def Let_def jy(2) uy_def)
  show ?thesis
  proof (cases "jx = jy")
    case True
    then have "ux = uy" by (simp add: ux_def uy_def)
    moreover have "x / uy \<le> y / uy" using xy pos by (simp add: divide_right_mono)
    ultimately show ?thesis
      unfolding fx fy using round_even_mono[of "x / uy" "y / uy"] pos by simp
  next
    case False
    then have lt: "jx < jy" using le by simp
    then have "jx < n" using jy(1) by simp
    then have "x < bound * ux" using jx(3) xy by (simp add: ux_def)
    then have "x / ux \<le> of_int (2 * K)" using pos by (simp add: K(1) field_simps)
    then have "round_even (x / ux) \<le> 2 * K"
      using round_even_mono[of "x / ux" "of_int (2 * K)"] by (simp only: round_even_of_int)
    then have "of_int (round_even (x / ux)) \<le> (of_int (2 * K) :: real)"
      by (simp only: of_int_le_iff)
    then have upper: "fp_round n bound u0 x \<le> of_int (2 * K) * ux"
      unfolding fx using pos by (simp only: mult_le_cancel_right_pos)
    obtain i where i: "jy = Suc i" using lt by (cases jy) simp_all
    have "bound * (u0 * 2 ^ i) \<le> \<bar>y\<bar>" using jy(4) i by simp
    then have "of_int (2 * K) * (uy / 2) \<le> y" using xy by (simp add: K(1) uy_def i)
    then have "of_int K * uy \<le> y" by simp
    then have "of_int K \<le> y / uy" using pos by (simp add: field_simps)
    then have "K \<le> round_even (y / uy)"
      using round_even_mono[of "of_int K" "y / uy"] by (simp only: round_even_of_int)
    then have "(of_int K :: real) \<le> of_int (round_even (y / uy))"
      by (simp only: of_int_le_iff)
    then have lower: "of_int K * uy \<le> fp_round n bound u0 y"
      unfolding fy using pos by (simp only: mult_le_cancel_right_pos)
    have "jx \<le> i" using lt i by simp
    then have "(2::real) ^ jx \<le> 2 ^ i" by simp
    then have "2 * ux \<le> uy" using u0 by (simp add: ux_def uy_def i)
    then have "of_int (2 * K) * ux \<le> of_int K * uy"
      using K(2) by (simp add: mult.assoc)
    then show ?thesis using upper lower by linarith
  qed
qed

lemma fp_round_nonneg:
  assumes "0 < u0" "0 \<le> x"
  shows "0 \<le> fp_round n bound u0 x"
proof -
  have "0 < fp_ulp n bound \<bar>x\<bar> u0" using assms(1) by (rule fp_ulp_pos)
  moreover have "0 \<le> x / fp_ulp n bound \<bar>x\<bar> u0" using assms(2) calculation by simp
  then have "0 \<le> round_even (x / fp_ulp n bound \<bar>x\<bar> u0)"
    using round_even_mono[of 0] by (metis of_int_0 round_even_of_int)
  ultimately show ?thesis by (simp add: fp_round_def Let_def)
qed

lemma fp_round_mono:
  assumes u0: "0 < u0" and K: "bound = of_int (2 * K)" "0 < K" and xy: "x \<le> y"
  shows "fp_round n bound u0 x \<le> fp_round n bound u0 y"
proof (cases "0 \<le> x")
  case True
  then show ?thesis using fp_round_mono_nonneg[OF u0 K _ xy] by simp
next
  case False
  show ?thesis
  proof (cases "0 \<le> y")
    case True
    have "0 \<le> fp_round n bound u0 (- x)" using False by (intro fp_round_nonneg[OF u0]) simp
    moreover have "0 \<le> fp_round n bound u0 y" using True by (intro fp_round_nonneg[OF u0])
    ultimately show ?thesis by (simp add: fp_round_minus)
  next
    case y: False
    have "fp_round n bound u0 (- y) \<le> fp_round n bound u0 (- x)"
      using y xy by (intro fp_round_mono_nonneg[OF u0 K]) simp_all
    then show ?thesis by (simp add: fp_round_minus)
  qed
qed

lemma fp_round_dyadic:
  fixes m :: int
  assumes "\<bar>of_int m\<bar> < bound" "k \<le> q"
  shows "fp_round n bound (1 / 2 ^ q) (of_int m / 2 ^ k) = of_int m / 2 ^ k"
proof -
  have "q = k + (q - k)" using assms(2) by simp
  then have "(2::real) ^ q = 2 ^ k * 2 ^ (q - k)" by (metis power_add)
  then have "(of_int m :: real) / 2 ^ k = of_int m * (1 / 2 ^ q * 2 ^ (q - k))"
    by (simp add: field_simps)
  then show ?thesis
    using assms(1) by (intro fp_round_fixed) simp_all
qed

lemma fp_round_scaled:
  fixes m :: int
  assumes "\<bar>of_int m\<bar> < bound"
  shows "fp_round n bound (1 / 2 ^ q) (of_int m * 2 ^ k) = of_int m * 2 ^ k"
proof -
  have "(of_int m :: real) * 2 ^ k = of_int m * (1 / 2 ^ q * 2 ^ (q + k))"
    by (simp add: power_add)
  then show ?thesis
    using assms by (intro fp_round_fixed) simp_all
qed

lemma fp_ulp_numeral:
  "fp_ulp (numeral n) bound a u =
     (if bound * u \<le> a then fp_ulp (pred_numeral n) bound a (2 * u) else u)"
  by (simp add: numeral_eq_Suc)

lemma float_round_0 [simp]: "float_round 0 = 0"
  by (simp add: float_round_def)

lemma float_round_minus: "float_round (- x) = - float_round x"
  by (simp add: float_round_def fp_round_minus)

lemma float_round_mono: "x \<le> y \<Longrightarrow> float_round x \<le> float_round y"
  unfolding float_round_def by (rule fp_round_mono[where K = 8388608]) simp_all

lemma float_round_nonneg: "0 \<le> x \<Longrightarrow> 0 \<le> float_round x"
  using float_round_mono[of 0 x] by simp

lemma float_round_abs: "float_round \<bar>x\<bar> = \<bar>float_round x\<bar>"
proof (cases "0 \<le> x")
  case True
  then show ?thesis using float_round_nonneg[of x] by simp
next
  case False
  then have "0 \<le> float_round (- x)" by (intro float_round_nonneg) simp
  then show ?thesis using False by (simp add: float_round_minus)
qed

text \<open>A number with at most 24 digits, scaled by a power of two, is a \<^verbatim>\<open>float\<close>.\<close>

lemma float_round_dyadic:
  "\<bar>of_int m :: real\<bar> < 16777216 \<Longrightarrow> k \<le> 149
     \<Longrightarrow> float_round (of_int m / 2 ^ k) = of_int m / 2 ^ k"
  unfolding float_round_def by (rule fp_round_dyadic)

lemma float_round_scaled:
  "\<bar>of_int m :: real\<bar> < 16777216 \<Longrightarrow> float_round (of_int m * 2 ^ k) = of_int m * 2 ^ k"
  unfolding float_round_def by (rule fp_round_scaled)

lemma float_round_int:
  "\<bar>of_int m :: real\<bar> < 16777216 \<Longrightarrow> float_round (of_int m) = of_int m"
  using float_round_dyadic[of m 0] by simp

lemma float_round_nat: "n < 16777216 \<Longrightarrow> float_round (real n) = real n"
  using float_round_int[of "int n"] by simp

lemma float_round_numeral:
  "(numeral w :: real) < 16777216 \<Longrightarrow> float_round (numeral w) = numeral w"
  using float_round_int[of "numeral w"] by simp

lemma float_round_1 [simp]: "float_round 1 = 1"
  using float_round_int[of 1] by simp

lemma float_round_neg_numeral:
  "(numeral w :: real) < 16777216 \<Longrightarrow> float_round (- numeral w) = - numeral w"
  by (simp add: float_round_minus float_round_numeral)

text \<open>What rounds below a \<^verbatim>\<open>float\<close> is below it.\<close>

lemma float_round_less_fixed:
  assumes "float_round x < c" "float_round c = c"
  shows "x < c"
proof (rule ccontr)
  assume "\<not> x < c"
  then have "float_round c \<le> float_round x" by (intro float_round_mono) simp
  then show False using assms by simp
qed

lemma float_round_le_fixed: "x \<le> c \<Longrightarrow> float_round c = c \<Longrightarrow> float_round x \<le> c"
  using float_round_mono[of x c] by simp

lemma float_round_ge_fixed: "c \<le> x \<Longrightarrow> float_round c = c \<Longrightarrow> c \<le> float_round x"
  using float_round_mono[of c x] by simp

lemma double_round_0 [simp]: "double_round 0 = 0"
  by (simp add: double_round_def)


lemma double_round_dyadic:
  "\<bar>of_int m :: real\<bar> < 9007199254740992 \<Longrightarrow> k \<le> 1074
     \<Longrightarrow> double_round (of_int m / 2 ^ k) = of_int m / 2 ^ k"
  unfolding double_round_def by (rule fp_round_dyadic)

lemma double_round_minus: "double_round (- x) = - double_round x"
  by (simp add: double_round_def fp_round_minus)

lemma double_round_int:
  "\<bar>of_int m :: real\<bar> < 9007199254740992 \<Longrightarrow> double_round (of_int m) = of_int m"
  using double_round_dyadic[of m 0] by simp

lemma double_round_numeral:
  "(numeral w :: real) < 9007199254740992 \<Longrightarrow> double_round (numeral w) = numeral w"
  using double_round_int[of "numeral w"] by simp

lemma double_round_1 [simp]: "double_round 1 = 1"
  using double_round_int[of 1] by simp

lemma double_round_neg_numeral:
  "(numeral w :: real) < 9007199254740992 \<Longrightarrow> double_round (- numeral w) = - numeral w"
  by (simp add: double_round_minus double_round_numeral)


lemma float_round_numeral_div:
  "(numeral w :: real) < 16777216 \<Longrightarrow> k \<le> 149
     \<Longrightarrow> float_round (numeral w / 2 ^ k) = numeral w / 2 ^ k"
  using float_round_dyadic[of "numeral w" k] by simp


lemma float_round_fractions:
  assumes "(numeral w :: real) < 16777216"
  shows "float_round (numeral w / 2) = numeral w / 2"
    and "float_round (numeral w / 4) = numeral w / 4"
    and "float_round (numeral w / 8) = numeral w / 8"
    and "float_round (numeral w / 16) = numeral w / 16"
  using float_round_numeral_div[OF assms, of 1] float_round_numeral_div[OF assms, of 2]
    float_round_numeral_div[OF assms, of 3] float_round_numeral_div[OF assms, of 4]
  by simp_all


lemma float_round_unit_fractions:
  "float_round (1 / 2) = 1 / 2" "float_round (1 / 4) = 1 / 4"
  using float_round_dyadic[of 1 1] float_round_dyadic[of 1 2] by simp_all

text \<open>The spacing at a magnitude between two powers of two.\<close>

lemma fp_ulp_binade:
  assumes "0 < u0" "0 < bound" "j \<le> n"
    and low: "j = 0 \<or> bound * (u0 * 2 ^ (j - 1)) \<le> a"
    and high: "a < bound * (u0 * 2 ^ j)"
  shows "fp_ulp n bound a u0 = u0 * 2 ^ j"
proof -
  obtain j' where j': "j' \<le> n" "fp_ulp n bound a u0 = u0 * 2 ^ j'"
    "j' < n \<longrightarrow> a < bound * (u0 * 2 ^ j')" "\<forall>i < j'. bound * (u0 * 2 ^ i) \<le> a"
    using fp_ulp_char[of n bound a u0] by blast
  have "j' = j"
  proof (rule ccontr)
    assume ne: "j' \<noteq> j"
    show False
    proof (cases "j' < j")
      case True
      then have lt: "a < bound * (u0 * 2 ^ j')" using j'(3) assms(3) by simp
      have j1: "bound * (u0 * 2 ^ (j - 1)) \<le> a" using low True by auto
      have "j' \<le> j - 1" using True by simp
      then have "(2::real) ^ j' \<le> 2 ^ (j - 1)" by (intro power_increasing) simp_all
      then have "bound * (u0 * 2 ^ j') \<le> bound * (u0 * 2 ^ (j - 1))"
        using assms(1,2) by simp
      then show False using lt j1 by linarith
    next
      case False
      then have "j < j'" using ne by simp
      then have "bound * (u0 * 2 ^ j) \<le> a" using j'(4) by blast
      then show False using high by simp
    qed
  qed
  then show ?thesis using j'(2) by simp
qed

lemma float_round_coarse:
  assumes "k \<le> 104" "8388608 * 2 ^ k \<le> \<bar>x\<bar>" "\<bar>x\<bar> < 16777216 * 2 ^ k"
  shows "float_round x = of_int (round_even (x / 2 ^ k)) * 2 ^ k"
proof -
  have e: "(1 / 2 ^ 149 :: real) * 2 ^ (149 + k) = 2 ^ k"
    by (simp add: power_add)
  have e1: "(1 / 2 ^ 149 :: real) * 2 ^ (149 + k - 1) = 2 ^ k / 2"
  proof -
    have "149 + k - 1 = 148 + k" by simp
    then have "(2::real) ^ (149 + k - 1) = 2 ^ 148 * 2 ^ k" by (simp only: power_add)
    moreover have "(2::real) ^ 149 = 2 * 2 ^ 148" by simp
    ultimately show ?thesis by (simp only: times_divide_eq_left) simp
  qed
  have "fp_ulp 253 16777216 \<bar>x\<bar> (1 / 2 ^ 149) = (1 / 2 ^ 149) * 2 ^ (149 + k)"
  proof (rule fp_ulp_binade)
    show "149 + k \<le> 253" using assms(1) by simp
    show "149 + k = 0 \<or> 16777216 * (1 / 2 ^ 149 * 2 ^ (149 + k - 1)) \<le> \<bar>x\<bar>"
      unfolding e1 using assms(2) by simp
    show "\<bar>x\<bar> < 16777216 * (1 / 2 ^ 149 * 2 ^ (149 + k))"
      unfolding e using assms(3) by simp
  qed simp_all
  then have "fp_ulp 253 16777216 \<bar>x\<bar> (1 / 2 ^ 149) = 2 ^ k" by (simp only: e)
  then show ?thesis by (simp add: float_round_def fp_round_def Let_def)
qed

lemma float_round_fine:
  assumes "k \<le> 148" "8388608 / 2 ^ k \<le> \<bar>x\<bar>" "\<bar>x\<bar> < 16777216 / 2 ^ k"
  shows "float_round x = of_int (round_even (x * 2 ^ k)) / 2 ^ k"
proof -
  have split: "(2::real) ^ 149 = 2 ^ (149 - k) * 2 ^ k"
    using assms(1) by (simp add: power_add[symmetric])
  have e: "(1 / 2 ^ 149 :: real) * 2 ^ (149 - k) = 1 / 2 ^ k"
    unfolding split by simp
  have "149 - k = Suc (149 - k - 1)" using assms(1) by simp
  then have "(2::real) ^ (149 - k) = 2 * 2 ^ (149 - k - 1)" by (metis power_Suc)
  then have e1: "(1 / 2 ^ 149 :: real) * 2 ^ (149 - k - 1) = 1 / 2 ^ k / 2"
    using e by simp
  have "fp_ulp 253 16777216 \<bar>x\<bar> (1 / 2 ^ 149) = (1 / 2 ^ 149) * 2 ^ (149 - k)"
  proof (rule fp_ulp_binade)
    show "149 - k \<le> 253" by simp
    show "149 - k = 0 \<or> 16777216 * (1 / 2 ^ 149 * 2 ^ (149 - k - 1)) \<le> \<bar>x\<bar>"
      unfolding e1 using assms(2) by simp
    show "\<bar>x\<bar> < 16777216 * (1 / 2 ^ 149 * 2 ^ (149 - k))"
      unfolding e using assms(3) by simp
  qed simp_all
  then have "fp_ulp 253 16777216 \<bar>x\<bar> (1 / 2 ^ 149) = 1 / 2 ^ k" by (simp only: e)
  then show ?thesis by (simp add: float_round_def fp_round_def Let_def)
qed

text \<open>No \<^verbatim>\<open>float\<close> lies between \<open>2^32 - 256\<close> and \<open>2^32\<close>.\<close>

lemma float_round_below_2_32:
  assumes "float_round z < 4294967296"
  shows "float_round z \<le> 4294967040"
proof -
  have top: "float_round 4294967296 = 4294967296"
    using float_round_scaled[of 1 32] by simp
  have low: "float_round 4294967040 = 4294967040"
    using float_round_scaled[of 16777215 8] by simp
  have "z < 4294967296"
    using assms top by (rule float_round_less_fixed)
  show ?thesis
  proof (cases "z \<le> 4294967040")
    case True
    then show ?thesis using low by (rule float_round_le_fixed)
  next
    case False
    then have z: "8388608 * 2 ^ 8 \<le> \<bar>z\<bar>" "\<bar>z\<bar> < 16777216 * 2 ^ 8"
      using \<open>z < 4294967296\<close> by simp_all
    have r: "float_round z = of_int (round_even (z / 2 ^ 8)) * 2 ^ 8"
      by (rule float_round_coarse[OF _ z]) simp
    define n where "n = round_even (z / 2 ^ 8)"
    have "of_int n * (256 :: real) < 4294967296" using assms r by (simp add: n_def)
    then have "(of_int n :: real) < 16777216" by simp
    then have "n < 16777216" by linarith
    then have "n \<le> 16777215" by simp
    then have "(of_int n :: real) \<le> 16777215" by linarith
    then show ?thesis using r by (simp add: n_def)
  qed
qed

lemma float_round_dyadics:
  assumes "(numeral w :: real) < 16777216"
  shows "float_round (numeral w / 32) = numeral w / 32"
    and "float_round (numeral w / 64) = numeral w / 64"
    and "float_round (numeral w / 128) = numeral w / 128"
    and "float_round (numeral w / 256) = numeral w / 256"
    and "float_round (numeral w / 512) = numeral w / 512"
    and "float_round (numeral w / 1024) = numeral w / 1024"
    and "float_round (numeral w / 2048) = numeral w / 2048"
    and "float_round (numeral w / 4096) = numeral w / 4096"
    and "float_round (numeral w / 8192) = numeral w / 8192"
    and "float_round (numeral w / 16384) = numeral w / 16384"
    and "float_round (numeral w / 32768) = numeral w / 32768"
    and "float_round (numeral w / 65536) = numeral w / 65536"
    and "float_round (numeral w / 131072) = numeral w / 131072"
    and "float_round (numeral w / 262144) = numeral w / 262144"
    and "float_round (numeral w / 524288) = numeral w / 524288"
    and "float_round (numeral w / 1048576) = numeral w / 1048576"
    and "float_round (numeral w / 2097152) = numeral w / 2097152"
    and "float_round (numeral w / 4194304) = numeral w / 4194304"
    and "float_round (numeral w / 8388608) = numeral w / 8388608"
    and "float_round (numeral w / 16777216) = numeral w / 16777216"
  using float_round_numeral_div[OF assms, of 5]
    float_round_numeral_div[OF assms, of 6]
    float_round_numeral_div[OF assms, of 7]
    float_round_numeral_div[OF assms, of 8]
    float_round_numeral_div[OF assms, of 9]
    float_round_numeral_div[OF assms, of 10]
    float_round_numeral_div[OF assms, of 11]
    float_round_numeral_div[OF assms, of 12]
    float_round_numeral_div[OF assms, of 13]
    float_round_numeral_div[OF assms, of 14]
    float_round_numeral_div[OF assms, of 15]
    float_round_numeral_div[OF assms, of 16]
    float_round_numeral_div[OF assms, of 17]
    float_round_numeral_div[OF assms, of 18]
    float_round_numeral_div[OF assms, of 19]
    float_round_numeral_div[OF assms, of 20]
    float_round_numeral_div[OF assms, of 21]
    float_round_numeral_div[OF assms, of 22]
    float_round_numeral_div[OF assms, of 23]
    float_round_numeral_div[OF assms, of 24]
  by simp_all

section \<open>Results and errors\<close>

lemma bind_r_eq_Inr: "bind_r m f = Inr y \<longleftrightarrow> (\<exists>x. m = Inr x \<and> f x = Inr y)"
  by (cases m) (simp_all add: bind_r_def)

lemma bind_r_Inr [simp]: "bind_r (Inr x) f = f x"
  by (simp add: bind_r_def)

lemma bind_r_Inl [simp]: "bind_r (Inl e) f = Inl e"
  by (simp add: bind_r_def)

section \<open>Arcs written to the storage\<close>

lemma contiguous_Cons:
  "contiguous (x # xs) = ((xs \<noteq> [] \<longrightarrow> m_end_pt x = m_start_pt (hd xs)) \<and> contiguous xs)"
  by (cases xs) simp_all

lemma contiguous_append:
  "contiguous (xs @ ys) =
     (contiguous xs \<and> contiguous ys \<and>
      (xs \<noteq> [] \<and> ys \<noteq> [] \<longrightarrow> m_end_pt (last xs) = m_start_pt (hd ys)))"
  by (induction xs rule: contiguous.induct) (auto simp: contiguous_Cons)

lemma max_arc_pos: "0 < max_arc"
  by (simp add: max_arc_def)

text \<open>
  The loop of \<open>add_tessellated_arc_segment\<close> appends \<open>cnt - i\<close> arc segments, each
  starting where the one before it ends; the first starts at \<open>start\<close> (or at the end of
  the last segment stored), the last ends at \<open>end\<close>, and the angles run from \<open>theta\<close> in
  steps of \<open>da\<close>.
\<close>

lemma arc_segment_loop_shape:
  "i \<le> cnt \<Longrightarrow>
   \<exists>new. arc_segment_loop i cnt theta da start end center radius twp d = d @ new
     \<and> length new = cnt - i
     \<and> (\<forall>S \<in> set new. m_type S = arc_segment)
     \<and> angle_chain theta da new
     \<and> contiguous new
     \<and> (i < cnt \<longrightarrow> m_start_pt (hd new) = (if i = 0 then start else m_end_pt (last d))
                   \<and> m_end_pt (last new) = end)"
proof (induction i cnt theta da start "end" center radius twp d rule: arc_segment_loop.induct)
  case (1 i cnt theta da start "end" center radius twp d)
  show ?case
  proof (cases "i < cnt")
    case False
    then show ?thesis using "1.prems" by (simp add: arc_segment_loop.simps)
  next
    case True
    define S where "S = segment_fresh
              \<lparr> m_start_pt := (if i = 0 then start else m_end_pt (last d)),
                m_tangent_with_predecessor := (if i = 0 then twp else True),
                m_end_pt := (if i + 1 = cnt then end
                             else vec2_add center
                                    (vec2_scale radius
                                       (t_cos (float_add theta da), t_sin (float_add theta da)))),
                m_center := center,
                m_arc_angle := \<lparr> m_begin = theta, m_end = float_add theta da \<rparr>,
                m_radius := radius,
                m_type := arc_segment \<rparr>"
    have unfold: "arc_segment_loop i cnt theta da start end center radius twp d
        = arc_segment_loop (i + 1) cnt (float_add theta da) da start end center radius twp
            (d @ [S])"
      using True by (subst arc_segment_loop.simps) (simp add: S_def Let_def)
    from "1.IH"[OF True S_def] True
    obtain new where new:
      "arc_segment_loop (i + 1) cnt (float_add theta da) da start end center radius twp
         (d @ [S]) = (d @ [S]) @ new"
      "length new = cnt - (i + 1)"
      "\<forall>S \<in> set new. m_type S = arc_segment"
      "angle_chain (float_add theta da) da new"
      "contiguous new"
      "i + 1 < cnt \<longrightarrow> m_start_pt (hd new) = m_end_pt S \<and> m_end_pt (last new) = end"
      by auto
    have S1: "m_type S = arc_segment"
      "m_arc_angle S = \<lparr> m_begin = theta, m_end = float_add theta da \<rparr>"
      "m_start_pt S = (if i = 0 then start else m_end_pt (last d))"
      "i + 1 = cnt \<Longrightarrow> m_end_pt S = end"
      by (simp_all add: S_def)
    have ne: "new = [] \<longleftrightarrow> i + 1 = cnt" using new(2) True by auto
    show ?thesis
      apply (rule exI[of _ "S # new"])
      using new S1 True ne by (auto simp: unfold contiguous_Cons)
  qed
qed

text \<open>
  The count of \<open>add_tessellated_arc_segment\<close> does not wrap: where the conversion to
  \<^verbatim>\<open>unsigned int\<close> is defined, the quotient is a \<^verbatim>\<open>float\<close> below \<open>2^32\<close> and so at most
  \<open>2^32 - 256\<close>.
\<close>

lemma arc_count_no_wrap:
  assumes "float_div a max_arc < 4294967296"
  shows "u32 (1 + nat \<lfloor>float_div a max_arc\<rfloor>) = 1 + nat \<lfloor>float_div a max_arc\<rfloor>"
proof -
  have "float_div a max_arc \<le> 4294967040"
    using assms unfolding float_div_def by (rule float_round_below_2_32)
  then have "\<lfloor>float_div a max_arc\<rfloor> \<le> 4294967040" by linarith
  then have "1 + nat \<lfloor>float_div a max_arc\<rfloor> < 4294967296" by linarith
  then show ?thesis by (simp add: u32_def)
qed

lemma add_tessellated_arc_segment_shape:
  assumes "add_tessellated_arc_segment start end center radius ang twp d = Inr d'"
  shows "\<exists>new. d' = d @ new \<and> new \<noteq> []
     \<and> length new = 1 + nat \<lfloor>float_div \<bar>float_sub (m_end ang) (m_begin ang)\<bar> max_arc\<rfloor>
     \<and> (\<forall>S \<in> set new. m_type S = arc_segment)
     \<and> angle_chain (m_begin ang)
          (float_div (float_sub (m_end ang) (m_begin ang)) (float_round (real (length new)))) new
     \<and> contiguous new \<and> m_start_pt (hd new) = start \<and> m_end_pt (last new) = end"
proof -
  define q where "q = float_div \<bar>float_sub (m_end ang) (m_begin ang)\<bar> max_arc"
  define cnt where "cnt = 1 + nat \<lfloor>q\<rfloor>"
  define da where "da = float_div (float_sub (m_end ang) (m_begin ang)) (float_round (real cnt))"
  have lt: "q < 4294967296"
    using assms unfolding add_tessellated_arc_segment_def Let_def q_def
    by (simp split: if_splits)
  have wrap: "u32 (1 + nat \<lfloor>q\<rfloor>) = cnt"
    unfolding cnt_def q_def using lt[unfolded q_def] by (rule arc_count_no_wrap)
  have d': "d' = arc_segment_loop 0 cnt (m_begin ang) da start end center radius twp d"
    using assms lt unfolding add_tessellated_arc_segment_def Let_def q_def[symmetric] wrap da_def
    by simp
  from arc_segment_loop_shape[of 0 cnt "m_begin ang" da start "end" center radius twp d]
  obtain new where new: "d' = d @ new" "length new = cnt"
     "\<forall>S \<in> set new. m_type S = arc_segment" "angle_chain (m_begin ang) da new"
     "contiguous new" "m_start_pt (hd new) = start" "m_end_pt (last new) = end"
    unfolding d' by (auto simp: cnt_def)
  have "new \<noteq> []" using new(2) by (auto simp: cnt_def)
  then show ?thesis
    using new unfolding da_def new(2)[symmetric] by (auto simp: new(2) cnt_def q_def)
qed

lemma add_arc_segment_loop_step:
  "add_arc_segment_loop (i # rest) center radius ang (pa, pp, twp, d) =
    (if (if m_begin ang < m_end ang
         then m_begin ang < crit_angles ! (if m_begin ang < m_end ang then i else 6 - i)
              \<and> crit_angles ! (if m_begin ang < m_end ang then i else 6 - i) < m_end ang
         else m_end ang < crit_angles ! (if m_begin ang < m_end ang then i else 6 - i)
              \<and> crit_angles ! (if m_begin ang < m_end ang then i else 6 - i) < m_begin ang)
     then
       bind_r (add_tessellated_arc_segment pp
                 (vec2_add center (vec2_scale radius
                    (crit_pts ! (if m_begin ang < m_end ang then i else 6 - i))))
                 center radius
                 \<lparr> m_begin = pa,
                   m_end = crit_angles ! (if m_begin ang < m_end ang then i else 6 - i) \<rparr> twp d)
             (\<lambda>d'. add_arc_segment_loop rest center radius ang
                      (crit_angles ! (if m_begin ang < m_end ang then i else 6 - i),
                       vec2_add center (vec2_scale radius
                         (crit_pts ! (if m_begin ang < m_end ang then i else 6 - i))),
                       False, d'))
     else add_arc_segment_loop rest center radius ang (pa, pp, twp, d))"
  by (simp add: Let_def)

lemma add_arc_segment_loop_shape:
  "add_arc_segment_loop is center radius ang (pa, pp, twp, d) = Inr (pa', pp', twp', d') \<Longrightarrow>
   \<exists>new. d' = d @ new
     \<and> (\<forall>S \<in> set new. m_type S = arc_segment)
     \<and> contiguous new
     \<and> (new = [] \<longrightarrow> pa' = pa \<and> pp' = pp)
     \<and> (new \<noteq> [] \<longrightarrow> m_start_pt (hd new) = pp \<and> m_end_pt (last new) = pp')"
proof (induction "is" arbitrary: pa pp twp d)
  case Nil
  then show ?case by simp
next
  case (Cons i rest)
  define K where "K = (if m_begin ang < m_end ang then i else 6 - i)"
  define should_split where "should_split =
            (if m_begin ang < m_end ang
             then m_begin ang < crit_angles ! K \<and> crit_angles ! K < m_end ang
             else m_end ang < crit_angles ! K \<and> crit_angles ! K < m_begin ang)"
  define end_pt where "end_pt = vec2_add center (vec2_scale radius (crit_pts ! K))"
  have step: "add_arc_segment_loop (i # rest) center radius ang (pa, pp, twp, d) =
    (if should_split then
       bind_r (add_tessellated_arc_segment pp end_pt center radius
                     \<lparr> m_begin = pa, m_end = crit_angles ! K \<rparr> twp d)
             (\<lambda>d'. add_arc_segment_loop rest center radius ang
                      (crit_angles ! K, end_pt, False, d'))
     else add_arc_segment_loop rest center radius ang (pa, pp, twp, d))"
    unfolding should_split_def K_def end_pt_def by (rule add_arc_segment_loop_step)
  show ?case
  proof (cases should_split)
    case False
    then have "add_arc_segment_loop rest center radius ang (pa, pp, twp, d)
                 = Inr (pa', pp', twp', d')"
      using Cons.prems unfolding step by simp
    from Cons.IH[OF this] show ?thesis .
  next
    case True
    from True Cons.prems[unfolded step] obtain d1 where
      d1: "add_tessellated_arc_segment pp end_pt center radius
                     \<lparr> m_begin = pa, m_end = crit_angles ! K \<rparr> twp d = Inr d1"
      and rest: "add_arc_segment_loop rest center radius ang (crit_angles ! K, end_pt, False, d1)
                   = Inr (pa', pp', twp', d')"
      by (auto simp: bind_r_eq_Inr)
    from add_tessellated_arc_segment_shape[OF d1] obtain n1 where n1:
      "d1 = d @ n1" "n1 \<noteq> []" "\<forall>S \<in> set n1. m_type S = arc_segment"
      "contiguous n1" "m_start_pt (hd n1) = pp" "m_end_pt (last n1) = end_pt"
      by blast
    from Cons.IH[OF rest] obtain n2 where n2:
      "d' = d1 @ n2" "\<forall>S \<in> set n2. m_type S = arc_segment"
      "contiguous n2" "n2 = [] \<longrightarrow> pa' = crit_angles ! K \<and> pp' = end_pt"
      "n2 \<noteq> [] \<longrightarrow> m_start_pt (hd n2) = end_pt \<and> m_end_pt (last n2) = pp'"
      by blast
    show ?thesis
      apply (rule exI[of _ "n1 @ n2"])
      using n1 n2 by (cases "n2 = []") (auto simp: contiguous_append)
  qed
qed

text \<open>
  One call of \<open>add_arc_segment\<close> that returns appends a chain of arc segments from
  \<open>start\<close> to \<open>end\<close>.
\<close>

lemma add_arc_segment_shape:
  assumes "add_arc_segment start end center radius ang d = Inr d'"
  shows "\<exists>new. d' = d @ new \<and> new \<noteq> []
     \<and> (\<forall>S \<in> set new. m_type S = arc_segment)
     \<and> contiguous new \<and> m_start_pt (hd new) = start \<and> m_end_pt (last new) = end"
proof -
  from assms obtain pa pp twp d1 where
    loop: "add_arc_segment_loop [0 ..< 7] center radius ang (m_begin ang, start, False, d)
             = Inr (pa, pp, twp, d1)"
    and fin: "add_tessellated_arc_segment pp end center radius
                \<lparr> m_begin = pa, m_end = m_end ang \<rparr> twp d1 = Inr d'"
    unfolding add_arc_segment_def by (auto simp: bind_r_eq_Inr)
  from add_arc_segment_loop_shape[OF loop] obtain n1 where n1:
    "d1 = d @ n1" "\<forall>S \<in> set n1. m_type S = arc_segment"
    "contiguous n1" "n1 = [] \<longrightarrow> pa = m_begin ang \<and> pp = start"
    "n1 \<noteq> [] \<longrightarrow> m_start_pt (hd n1) = start \<and> m_end_pt (last n1) = pp"
    by blast
  from add_tessellated_arc_segment_shape[OF fin] obtain n2 where n2:
    "d' = d1 @ n2" "n2 \<noteq> []"
    "\<forall>S \<in> set n2. m_type S = arc_segment"
    "contiguous n2" "m_start_pt (hd n2) = pp" "m_end_pt (last n2) = end"
    by blast
  show ?thesis
    apply (rule exI[of _ "n1 @ n2"])
    using n1 n2 by (cases "n1 = []") (auto simp: contiguous_append)
qed

section \<open>A path without contours\<close>

text \<open>
  C8. Constructing a TessellatedPath from a Path without contours returns (no assertion
  fails, nothing undefined is done), the new path has no contour and no segment, and no
  Refiner is made.
\<close>

theorem TessellatedPath_of_empty_Path:
  "TessellatedPath_of_Path [] TP want_ref = Inr (TessellatedPathPrivate_init 0 TP, None)
   \<and> number_contours (TessellatedPathPrivate_init 0 TP) = 0
   \<and> segment_data (TessellatedPathPrivate_init 0 TP) = []"
  by (simp add: TessellatedPath_of_Path_def path_jobs_def tessellate_contours_def number_contours_def
      segment_data_def TessellatedPathPrivate_init_def)
section \<open>Building a tessellated path\<close>

lemma compute_local_keeps [simp]:
  "m_start_pt (compute_local_segment_values S) = m_start_pt S"
  "m_end_pt (compute_local_segment_values S) = m_end_pt S"
  "m_type (compute_local_segment_values S) = m_type S"
  "m_arc_angle (compute_local_segment_values S) = m_arc_angle S"
  by (simp_all add: compute_local_segment_values_def Let_def)

lemma add_edge_loop_Cons:
  assumes "add_edge_loop closing prev (S # rest) (d, b) = (xs', d', b')"
  obtains S3 d3 rest' where
    "xs' = S3 # rest'"
    "add_edge_loop closing (Some S3) rest
        (d3, b \<lparr> m_contour_length := float_add (m_contour_length b) (m_length S3) \<rparr>) = (rest', d', b')"
    "S3 = compute_local_segment_values S
            \<lparr> m_distance_from_edge_start :=
                 (case prev of Some P \<Rightarrow> float_add (m_distance_from_edge_start P) (m_length P) | None \<Rightarrow> 0),
              m_distance_from_contour_start := m_contour_length b \<rparr>"
    "TessellatedPathPrivate.m_edges d3 = TessellatedPathPrivate.m_edges d"
    "m_segment_data d3 = m_segment_data d"
    "m_stroked d3 = m_stroked d" "m_filled d3 = m_filled d"
    "m_params d3 = m_params d"
    "TessellatedPathPrivate.m_max_distance d3 = TessellatedPathPrivate.m_max_distance d"
    "m_max_segments d3 = m_max_segments d"
    "TessellatedPathPrivate.m_max_recursion d3 = TessellatedPathPrivate.m_max_recursion d"
    "m_has_arcs d3 = (m_has_arcs d \<or> m_type S = arc_segment)"
proof -
  define S3 where "S3 = compute_local_segment_values S
            \<lparr> m_distance_from_edge_start :=
                 (case prev of Some P \<Rightarrow> float_add (m_distance_from_edge_start P) (m_length P) | None \<Rightarrow> 0),
              m_distance_from_contour_start := m_contour_length b \<rparr>"
  define d1 where "d1 = d \<lparr> m_has_arcs := (m_has_arcs d \<or> m_type S = arc_segment),
                   m_bounding_box := union_segment S (m_bounding_box d) \<rparr>"
  define d2 where "d2 = (case prev of
                  Some P \<Rightarrow> d1 \<lparr> TessellatedPathPrivate.m_path := TessellatedPathPrivate.m_path d1 @ [operand_edge_type continues_edge] \<rparr>
                | None \<Rightarrow> d1)"
  define d3 where "d3 = d2 \<lparr> TessellatedPathPrivate.m_path := add_segment_to_path (closing \<and> rest = []) S3 (TessellatedPathPrivate.m_path d2) \<rparr>"
  obtain rest' d'' b'' where rec: "add_edge_loop closing (Some S3) rest
        (d3, b \<lparr> m_contour_length := float_add (m_contour_length b) (m_length S3) \<rparr>) = (rest', d'', b'')"
    by (metis prod_cases3)
  have "add_edge_loop closing prev (S # rest) (d, b) =
      (case add_edge_loop closing (Some S3) rest
        (d3, b \<lparr> m_contour_length := float_add (m_contour_length b) (m_length S3) \<rparr>) of
         (rest', st') \<Rightarrow> (S3 # rest', st'))"
    unfolding S3_def d3_def d2_def d1_def by (simp only: add_edge_loop.simps Let_def)
  then have "add_edge_loop closing prev (S # rest) (d, b) = (S3 # rest', d'', b'')"
    unfolding rec by simp
  with assms have eq: "xs' = S3 # rest'" "d' = d''" "b' = b''" by simp_all
  show thesis
    apply (rule that[of S3 rest' d3])
    using eq rec by (simp_all add: S3_def d3_def d2_def d1_def split: option.splits)
qed

lemma add_edge_loop_segments:
  "add_edge_loop closing prev xs (d, b) = (xs', d', b') \<Longrightarrow>
     length xs' = length xs
     \<and> map m_start_pt xs' = map m_start_pt xs
     \<and> map m_end_pt xs' = map m_end_pt xs
     \<and> map m_type xs' = map m_type xs
     \<and> map m_arc_angle xs' = map m_arc_angle xs
     \<and> dist_chain (case prev of Some P \<Rightarrow> float_add (m_distance_from_edge_start P) (m_length P) | None \<Rightarrow> 0) xs'
     \<and> m_contour_length b' = foldl float_add (m_contour_length b) (map m_length xs')"
proof (induction xs arbitrary: prev d b xs' d' b')
  case Nil
  then show ?case by simp
next
  case (Cons S rest)
  from Cons.prems show ?case
  proof (rule add_edge_loop_Cons)
    fix S3 d3 rest'
    assume xs': "xs' = S3 # rest'"
      and rec: "add_edge_loop closing (Some S3) rest
        (d3, b \<lparr> m_contour_length := float_add (m_contour_length b) (m_length S3) \<rparr>) = (rest', d', b')"
      and S3: "S3 = compute_local_segment_values S
            \<lparr> m_distance_from_edge_start :=
                 (case prev of Some P \<Rightarrow> float_add (m_distance_from_edge_start P) (m_length P) | None \<Rightarrow> 0),
              m_distance_from_contour_start := m_contour_length b \<rparr>"
    have S3': "m_start_pt S3 = m_start_pt S" "m_end_pt S3 = m_end_pt S" "m_type S3 = m_type S"
      "m_arc_angle S3 = m_arc_angle S"
      "m_distance_from_edge_start S3 = (case prev of Some P \<Rightarrow> float_add (m_distance_from_edge_start P) (m_length P) | None \<Rightarrow> 0)"
      by (simp_all add: S3)
    from Cons.IH[OF rec] show ?thesis
      by (simp add: xs' S3')
  qed
qed

lemma add_edge_loop_frame:
  "add_edge_loop closing prev xs (d, b) = (xs', d', b') \<Longrightarrow>
     TessellatedPathPrivate.m_edges d' = TessellatedPathPrivate.m_edges d
     \<and> m_segment_data d' = m_segment_data d
     \<and> m_stroked d' = m_stroked d \<and> m_filled d' = m_filled d
     \<and> m_params d' = m_params d
     \<and> TessellatedPathPrivate.m_max_distance d' = TessellatedPathPrivate.m_max_distance d
     \<and> m_max_segments d' = m_max_segments d
     \<and> TessellatedPathPrivate.m_max_recursion d' = TessellatedPathPrivate.m_max_recursion d
     \<and> m_has_arcs d' = (m_has_arcs d \<or> (\<exists>S \<in> set xs. m_type S = arc_segment))
     \<and> m_temp b' = m_temp b \<and> m_loc b' = m_loc b \<and> m_ende b' = m_ende b
     \<and> m_start_contour b' = m_start_contour b
     \<and> m_open_contour_length b' = m_open_contour_length b
     \<and> m_closed_contour_length b' = m_closed_contour_length b"
proof (induction xs arbitrary: prev d b xs' d' b')
  case Nil
  then show ?case by simp
next
  case (Cons S rest)
  from Cons.prems show ?case
  proof (rule add_edge_loop_Cons)
    fix S3 d3 rest'
    assume rec: "add_edge_loop closing (Some S3) rest
        (d3, b \<lparr> m_contour_length := float_add (m_contour_length b) (m_length S3) \<rparr>) = (rest', d', b')"
      and d3: "TessellatedPathPrivate.m_edges d3 = TessellatedPathPrivate.m_edges d"
    "m_segment_data d3 = m_segment_data d"
    "m_stroked d3 = m_stroked d" "m_filled d3 = m_filled d"
    "m_params d3 = m_params d"
    "TessellatedPathPrivate.m_max_distance d3 = TessellatedPathPrivate.m_max_distance d"
    "m_max_segments d3 = m_max_segments d"
    "TessellatedPathPrivate.m_max_recursion d3 = TessellatedPathPrivate.m_max_recursion d"
    "m_has_arcs d3 = (m_has_arcs d \<or> m_type S = arc_segment)"
    from Cons.IH[OF rec] show ?thesis
      by (auto simp: d3)
  qed
qed

lemma u32_id: "n < 4294967296 \<Longrightarrow> u32 n = n"
  by (simp add: u32_def)

lemma u32_lt [simp]: "u32 n < 4294967296"
  by (simp add: u32_def)

lemma dist_chain_map_edge_length:
  "dist_chain x (map (\<lambda>S. S \<lparr> m_edge_length := l \<rparr>) xs) = dist_chain x xs"
  by (induction xs arbitrary: x) simp_all

lemma add_edge_Inr:
  assumes "add_edge b d o' e wr emd closing = Inr (d', b')"
  obtains wr' where
    "o' < length (TessellatedPathPrivate.m_edges d)"
    "e < length (TessellatedPathPrivate.m_edges d ! o')"
    "wr \<noteq> []" "length wr < 4294967296"
    "TessellatedPathPrivate.m_edges d' = (TessellatedPathPrivate.m_edges d)
        [o' := (TessellatedPathPrivate.m_edges d ! o')
           [e := (TessellatedPathPrivate.m_edges d ! o' ! e)
              \<lparr> m_edge_range := \<lparr> m_begin = m_loc b, m_end = u32 (m_loc b + length wr) \<rparr> \<rparr>]]"
    "m_loc b' = u32 (m_loc b + length wr)"
    "m_temp b' = m_temp b @ [wr']"
    "length wr' = length wr"
    "map m_start_pt wr' = map m_start_pt wr"
    "map m_end_pt wr' = map m_end_pt wr"
    "map m_type wr' = map m_type wr"
    "map m_arc_angle wr' = map m_arc_angle wr"
    "dist_chain 0 wr'"
    "\<forall>S \<in> set wr'. m_edge_length S = float_add (m_distance_from_edge_start (last wr')) (m_length (last wr'))"
    "m_start_contour b' = (if e = 0 then Some (length (m_temp b)) else m_start_contour b)"
    "m_ende b' = m_ende b"
    "m_contour_length b' = foldl float_add (m_contour_length b) (map m_length wr')"
    "m_open_contour_length b' =
       (if u32 (e + 2) = m_ende b then m_contour_length b' else m_open_contour_length b)"
    "m_closed_contour_length b' =
       (if u32 (e + 2) = m_ende b then m_closed_contour_length b
        else if u32 (e + 1) = m_ende b then m_contour_length b'
        else m_closed_contour_length b)"
    "m_segment_data d' = m_segment_data d"
    "m_stroked d' = m_stroked d" "m_filled d' = m_filled d" "m_params d' = m_params d"
    "m_has_arcs d' = (m_has_arcs d \<or> (\<exists>S \<in> set wr. m_type S = arc_segment))"
proof -
  define needed where "needed = u32 (length wr)"
  define d1 where "d1 = d \<lparr> TessellatedPathPrivate.m_edges := (TessellatedPathPrivate.m_edges d)
                     [o' := (TessellatedPathPrivate.m_edges d ! o')
                        [e := (TessellatedPathPrivate.m_edges d ! o' ! e)
                           \<lparr> m_edge_range :=
                               \<lparr> m_begin = m_loc b,
                                 m_end = u32 (m_loc b + needed) \<rparr> \<rparr>]] \<rparr>"
  define b1 where "b1 = b \<lparr> m_loc := u32 (m_loc b + needed) \<rparr>"
  define d2 where "d2 = d1 \<lparr> m_max_segments := max (m_max_segments d1) needed,
                        TessellatedPathPrivate.m_max_distance := max (TessellatedPathPrivate.m_max_distance d1) emd \<rparr>"
  define d3 where "d3 = (if e = 0
                    then d2 \<lparr> TessellatedPathPrivate.m_path := TessellatedPathPrivate.m_path d2 @ [operand_point (m_start_pt (hd wr))] \<rparr>
                    else d2)"
  obtain wr1 d4 b2 where loop: "add_edge_loop closing None wr (d3, b1) = (wr1, d4, b2)"
    by (metis prod_cases3)
  define edge_length where "edge_length = float_add (m_distance_from_edge_start (last wr1)) (m_length (last wr1))"
  define wr2 where "wr2 = map (\<lambda>S. S \<lparr> m_edge_length := edge_length \<rparr>) wr1"
  define b3 where "b3 = (if u32 (e + 2) = m_ende b2
                 then b2 \<lparr> m_open_contour_length := m_contour_length b2 \<rparr>
                 else if u32 (e + 1) = m_ende b2
                 then b2 \<lparr> m_closed_contour_length := m_contour_length b2 \<rparr>
                 else b2)"
  define b4 where "b4 = b3 \<lparr> m_temp := m_temp b3 @ [wr2] \<rparr>"
  define b5 where "b5 = (if e = 0
                          then b4 \<lparr> m_start_contour := Some (length (m_temp b3)) \<rparr>
                          else b4)"
  have eq: "add_edge b d o' e wr emd closing =
     (if \<not> (o' < length (TessellatedPathPrivate.m_edges d) \<and> e < length (TessellatedPathPrivate.m_edges d ! o')) then Inl UndefinedBehaviour
      else if \<not> needed > 0 then Inl AssertionFailure
        else if \<not> length wr < 4294967296 then Inl DoesNotReturn
        else (case add_edge_loop closing None wr (d3, b1) of
               (work_room1, d4, builder2) \<Rightarrow>
                 Inr (d4, (if e = 0
                          then ((if u32 (e + 2) = m_ende builder2
                 then builder2 \<lparr> m_open_contour_length := m_contour_length builder2 \<rparr>
                 else if u32 (e + 1) = m_ende builder2
                 then builder2 \<lparr> m_closed_contour_length := m_contour_length builder2 \<rparr>
                 else builder2) \<lparr> m_temp := m_temp (if u32 (e + 2) = m_ende builder2
                 then builder2 \<lparr> m_open_contour_length := m_contour_length builder2 \<rparr>
                 else if u32 (e + 1) = m_ende builder2
                 then builder2 \<lparr> m_closed_contour_length := m_contour_length builder2 \<rparr>
                 else builder2) @ [map (\<lambda>S. S \<lparr> m_edge_length := float_add (m_distance_from_edge_start (last work_room1)) (m_length (last work_room1)) \<rparr>) work_room1] \<rparr>) \<lparr> m_start_contour := Some (length (m_temp (if u32 (e + 2) = m_ende builder2
                 then builder2 \<lparr> m_open_contour_length := m_contour_length builder2 \<rparr>
                 else if u32 (e + 1) = m_ende builder2
                 then builder2 \<lparr> m_closed_contour_length := m_contour_length builder2 \<rparr>
                 else builder2))) \<rparr>
                          else ((if u32 (e + 2) = m_ende builder2
                 then builder2 \<lparr> m_open_contour_length := m_contour_length builder2 \<rparr>
                 else if u32 (e + 1) = m_ende builder2
                 then builder2 \<lparr> m_closed_contour_length := m_contour_length builder2 \<rparr>
                 else builder2) \<lparr> m_temp := m_temp (if u32 (e + 2) = m_ende builder2
                 then builder2 \<lparr> m_open_contour_length := m_contour_length builder2 \<rparr>
                 else if u32 (e + 1) = m_ende builder2
                 then builder2 \<lparr> m_closed_contour_length := m_contour_length builder2 \<rparr>
                 else builder2) @ [map (\<lambda>S. S \<lparr> m_edge_length := float_add (m_distance_from_edge_start (last work_room1)) (m_length (last work_room1)) \<rparr>) work_room1] \<rparr>)))))"
    unfolding needed_def d1_def b1_def d2_def d3_def
    by (simp only: add_edge_def Let_def)
  have res: "add_edge b d o' e wr emd closing =
     (if \<not> (o' < length (TessellatedPathPrivate.m_edges d) \<and> e < length (TessellatedPathPrivate.m_edges d ! o')) then Inl UndefinedBehaviour
      else if \<not> needed > 0 then Inl AssertionFailure
        else if \<not> length wr < 4294967296 then Inl DoesNotReturn
        else Inr (d4, b5))"
    unfolding eq loop b5_def b4_def b3_def wr2_def edge_length_def by simp
  from assms res have ok: "o' < length (TessellatedPathPrivate.m_edges d)"
    "e < length (TessellatedPathPrivate.m_edges d ! o')" "needed > 0" "length wr < 4294967296"
    and d': "d' = d4" and b': "b' = b5"
    by (auto split: if_splits)
  have needed: "needed = length wr" using ok(4) by (simp add: needed_def u32_id)
  note seg = add_edge_loop_segments[OF loop]
  note frame = add_edge_loop_frame[OF loop]
  have b3_fields: "m_temp b3 = m_temp b" "m_loc b3 = u32 (m_loc b + length wr)" "m_ende b3 = m_ende b"
    "m_start_contour b3 = m_start_contour b"
    "m_contour_length b3 = foldl float_add (m_contour_length b) (map m_length wr1)"
    "m_open_contour_length b3 = (if u32 (e + 2) = m_ende b then m_contour_length b3 else m_open_contour_length b)"
    "m_closed_contour_length b3 =
       (if u32 (e + 2) = m_ende b then m_closed_contour_length b
        else if u32 (e + 1) = m_ende b then m_contour_length b3
        else m_closed_contour_length b)"
    using frame seg by (simp_all add: b3_def b1_def needed)
  have len_wr2: "map m_length wr2 = map m_length wr1" by (simp add: wr2_def)
  have last_wr2: "float_add (m_distance_from_edge_start (last wr2)) (m_length (last wr2)) = edge_length"
  proof -
    have "wr1 \<noteq> []" using seg ok(3) needed by auto
    then show ?thesis by (simp add: wr2_def edge_length_def last_map)
  qed
  show thesis
  proof (rule that[of wr2])
    show "o' < length (TessellatedPathPrivate.m_edges d)" by (rule ok)
    show "e < length (TessellatedPathPrivate.m_edges d ! o')" by (rule ok)
    show "wr \<noteq> []" using ok(3) needed by auto
    show "length wr < 4294967296" by (rule ok)
    show "TessellatedPathPrivate.m_edges d' = (TessellatedPathPrivate.m_edges d)
        [o' := (TessellatedPathPrivate.m_edges d ! o')
           [e := (TessellatedPathPrivate.m_edges d ! o' ! e)
              \<lparr> m_edge_range := \<lparr> m_begin = m_loc b, m_end = u32 (m_loc b + length wr) \<rparr> \<rparr>]]"
      using frame by (simp add: d' d3_def d2_def d1_def needed)
    show "m_loc b' = u32 (m_loc b + length wr)" by (simp add: b' b5_def b4_def b3_fields)
    show "m_temp b' = m_temp b @ [wr2]" by (simp add: b' b5_def b4_def b3_fields)
    show "length wr2 = length wr" using seg by (simp add: wr2_def)
    show "map m_start_pt wr2 = map m_start_pt wr" using seg by (simp add: wr2_def comp_def)
    show "map m_end_pt wr2 = map m_end_pt wr" using seg by (simp add: wr2_def comp_def)
    show "map m_type wr2 = map m_type wr" using seg by (simp add: wr2_def comp_def)
    show "map m_arc_angle wr2 = map m_arc_angle wr" using seg by (simp add: wr2_def comp_def)
    show "dist_chain 0 wr2" using seg by (simp add: wr2_def dist_chain_map_edge_length)
    show "\<forall>S \<in> set wr2. m_edge_length S = float_add (m_distance_from_edge_start (last wr2)) (m_length (last wr2))"
      unfolding last_wr2 by (auto simp: wr2_def)
    show "m_start_contour b' = (if e = 0 then Some (length (m_temp b)) else m_start_contour b)"
      by (simp add: b' b5_def b4_def b3_fields)
    show "m_ende b' = m_ende b" by (simp add: b' b5_def b4_def b3_fields)
    show cl: "m_contour_length b' = foldl float_add (m_contour_length b) (map m_length wr2)"
      by (simp add: b' b5_def b4_def b3_fields len_wr2)
    have cl3: "m_contour_length b3 = m_contour_length b'"
      by (simp add: b' b5_def b4_def)
    show "m_open_contour_length b' =
       (if u32 (e + 2) = m_ende b then m_contour_length b' else m_open_contour_length b)"
      using b3_fields(6) unfolding cl3 by (simp add: b' b5_def b4_def)
    show "m_closed_contour_length b' =
       (if u32 (e + 2) = m_ende b then m_closed_contour_length b
        else if u32 (e + 1) = m_ende b then m_contour_length b'
        else m_closed_contour_length b)"
      using b3_fields(7) unfolding cl3 by (simp add: b' b5_def b4_def)
    show "m_segment_data d' = m_segment_data d" using frame by (simp add: d' d3_def d2_def d1_def)
    show "m_stroked d' = m_stroked d" using frame by (simp add: d' d3_def d2_def d1_def)
    show "m_filled d' = m_filled d" using frame by (simp add: d' d3_def d2_def d1_def)
    show "m_params d' = m_params d" using frame by (simp add: d' d3_def d2_def d1_def)
    show "m_has_arcs d' = (m_has_arcs d \<or> (\<exists>S \<in> set wr. m_type S = arc_segment))"
      using frame by (simp add: d' d3_def d2_def d1_def)
  qed
qed

lemma u32_Suc_neq: "n < 4294967296 \<Longrightarrow> u32 (Suc n) \<noteq> n"
proof (cases "n = 4294967295")
  case True
  then show ?thesis by (simp add: u32_def)
next
  case False
  assume "n < 4294967296"
  with False have "Suc n < 4294967296" by simp
  then show ?thesis by (simp add: u32_id)
qed

lemma ex_type_map:
  fixes xs ys :: "segment list"
  assumes "map m_type xs = map m_type ys"
  shows "(\<exists>S \<in> set xs. m_type S = ty) = (\<exists>S \<in> set ys. m_type S = ty)"
proof -
  have *: "(\<exists>S \<in> set zs. m_type S = ty) \<longleftrightarrow> ty \<in> set (map m_type zs)"
    for zs :: "segment list"
    by auto
  show ?thesis unfolding * assms ..
qed

lemma update_take_drop:
  assumes "e < length xs"
  shows "take (Suc e) (xs[e := X]) @ en @ drop (Suc e + k) (xs[e := X])
       = take e xs @ (X # en) @ drop (e + Suc k) xs"
  using assms by (simp add: take_Suc_conv_app_nth)

lemma edge_loop_Cons:
  assumes "edge_loop o' e ende (job # jobs) (d, b) = Inr (d', b')"
  obtains wr d2 b2 where
    "run_storage_calls (job_calls job) [] = Inr wr"
    "add_edge b (case job_recursion_depth job of
                   Some depth \<Rightarrow> d \<lparr> TessellatedPathPrivate.m_max_recursion := max (TessellatedPathPrivate.m_max_recursion d) depth \<rparr>
                 | None \<Rightarrow> d) o' e wr (job_max_distance job) (e + 1 = ende) = Inr (d2, b2)"
    "edge_loop o' (e + 1) ende jobs
                 (d2 \<lparr> TessellatedPathPrivate.m_edges := (TessellatedPathPrivate.m_edges d2)
                        [o' := (TessellatedPathPrivate.m_edges d2 ! o')
                           [e := (TessellatedPathPrivate.m_edges d2 ! o' ! e)
                              \<lparr> m_edge_type := job_edge_type job \<rparr>]] \<rparr>,
                  b2) = Inr (d', b')"
  using assms by (auto simp: bind_r_eq_Inr Let_def)

lemma edge_loop_inv:
  "edge_loop o' e ende jobs (d, b) = Inr (d', b') \<Longrightarrow>
   \<exists>new en.
      m_temp b' = m_temp b @ new
    \<and> list_all2 edge_of_job jobs new
    \<and> length en = length jobs
    \<and> (jobs \<noteq> [] \<longrightarrow> o' < length (TessellatedPathPrivate.m_edges d)
          \<and> e + length jobs \<le> length (TessellatedPathPrivate.m_edges d ! o'))
    \<and> TessellatedPathPrivate.m_edges d' =
        (if jobs = [] then TessellatedPathPrivate.m_edges d
         else (TessellatedPathPrivate.m_edges d)
          [o' := take e (TessellatedPathPrivate.m_edges d ! o') @ en
                 @ drop (e + length jobs) (TessellatedPathPrivate.m_edges d ! o')])
    \<and> map m_edge_range en = ranges_u32 (m_loc b) new
    \<and> map m_edge_type en = map job_edge_type jobs
    \<and> m_loc b' = loc_after (m_loc b) new
    \<and> m_contour_length b' = foldl float_add (m_contour_length b) (map m_length (concat new))
    \<and> m_ende b' = m_ende b
    \<and> m_start_contour b' =
         (if e = 0 \<and> jobs \<noteq> [] then Some (length (m_temp b)) else m_start_contour b)
    \<and> (jobs \<noteq> [] \<and> e + length jobs = m_ende b \<and> m_ende b < 4294967296 \<longrightarrow>
          m_closed_contour_length b' = m_contour_length b')
    \<and> m_segment_data d' = m_segment_data d
    \<and> m_stroked d' = m_stroked d \<and> m_filled d' = m_filled d \<and> m_params d' = m_params d
    \<and> m_has_arcs d' = (m_has_arcs d \<or> (\<exists>S \<in> set (concat new). m_type S = arc_segment))"
proof (induction jobs arbitrary: e d b)
  case Nil
  then show ?case by simp
next
  case (Cons job jobs)
  from Cons.prems show ?case
  proof (rule edge_loop_Cons)
    fix wr and d2 :: TessellatedPathPrivate and b2
    define d1 where "d1 = (case job_recursion_depth job of
                   Some depth \<Rightarrow> d \<lparr> TessellatedPathPrivate.m_max_recursion := max (TessellatedPathPrivate.m_max_recursion d) depth \<rparr>
                 | None \<Rightarrow> d)"
    define d3 where "d3 = d2 \<lparr> TessellatedPathPrivate.m_edges := (TessellatedPathPrivate.m_edges d2)
                        [o' := (TessellatedPathPrivate.m_edges d2 ! o')
                           [e := (TessellatedPathPrivate.m_edges d2 ! o' ! e)
                              \<lparr> m_edge_type := job_edge_type job \<rparr>]] \<rparr>"
    assume run: "run_storage_calls (job_calls job) [] = Inr wr"
      and add: "add_edge b (case job_recursion_depth job of
                   Some depth \<Rightarrow> d \<lparr> TessellatedPathPrivate.m_max_recursion := max (TessellatedPathPrivate.m_max_recursion d) depth \<rparr>
                 | None \<Rightarrow> d) o' e wr (job_max_distance job) (e + 1 = ende) = Inr (d2, b2)"
      and rest: "edge_loop o' (e + 1) ende jobs
                 (d2 \<lparr> TessellatedPathPrivate.m_edges := (TessellatedPathPrivate.m_edges d2)
                        [o' := (TessellatedPathPrivate.m_edges d2 ! o')
                           [e := (TessellatedPathPrivate.m_edges d2 ! o' ! e)
                              \<lparr> m_edge_type := job_edge_type job \<rparr>]] \<rparr>,
                  b2) = Inr (d', b')"
    have d1: "TessellatedPathPrivate.m_edges d1 = TessellatedPathPrivate.m_edges d"
      "m_segment_data d1 = m_segment_data d" "m_stroked d1 = m_stroked d"
      "m_filled d1 = m_filled d" "m_params d1 = m_params d" "m_has_arcs d1 = m_has_arcs d"
      by (simp_all add: d1_def split: option.splits)
    let ?E = "TessellatedPathPrivate.m_edges d"
    from add[folded d1_def] obtain wr' where A:
      "o' < length ?E" "e < length (?E ! o')" "wr \<noteq> []" "length wr < 4294967296"
      "TessellatedPathPrivate.m_edges d2 = ?E
        [o' := (?E ! o')
           [e := (?E ! o' ! e)
              \<lparr> m_edge_range := \<lparr> m_begin = m_loc b, m_end = u32 (m_loc b + length wr) \<rparr> \<rparr>]]"
      "m_loc b2 = u32 (m_loc b + length wr)"
      "m_temp b2 = m_temp b @ [wr']"
      "length wr' = length wr"
      "map m_start_pt wr' = map m_start_pt wr"
      "map m_end_pt wr' = map m_end_pt wr"
      "map m_type wr' = map m_type wr"
      "map m_arc_angle wr' = map m_arc_angle wr"
      "dist_chain 0 wr'"
      "\<forall>S \<in> set wr'. m_edge_length S = float_add (m_distance_from_edge_start (last wr')) (m_length (last wr'))"
      "m_start_contour b2 = (if e = 0 then Some (length (m_temp b)) else m_start_contour b)"
      "m_ende b2 = m_ende b"
      "m_contour_length b2 = foldl float_add (m_contour_length b) (map m_length wr')"
      "m_closed_contour_length b2 =
       (if u32 (e + 2) = m_ende b then m_closed_contour_length b
        else if u32 (e + 1) = m_ende b then m_contour_length b2
        else m_closed_contour_length b)"
      "m_segment_data d2 = m_segment_data d"
      "m_stroked d2 = m_stroked d" "m_filled d2 = m_filled d" "m_params d2 = m_params d"
      "m_has_arcs d2 = (m_has_arcs d \<or> (\<exists>S \<in> set wr. m_type S = arc_segment))"
      unfolding d1[symmetric] by (rule add_edge_Inr) blast
    define X where "X = (?E ! o' ! e)
              \<lparr> m_edge_range := \<lparr> m_begin = m_loc b, m_end = u32 (m_loc b + length wr) \<rparr>,
                m_edge_type := job_edge_type job \<rparr>"
    have E3: "TessellatedPathPrivate.m_edges d3 = ?E [o' := (?E ! o') [e := X]]"
      using A(1,2) by (simp add: d3_def A(5) X_def)
    have d3: "m_segment_data d3 = m_segment_data d" "m_stroked d3 = m_stroked d"
      "m_filled d3 = m_filled d" "m_params d3 = m_params d"
      "m_has_arcs d3 = (m_has_arcs d \<or> (\<exists>S \<in> set wr. m_type S = arc_segment))"
      by (simp_all add: d3_def A)
    from Cons.IH[OF rest[folded d3_def]] obtain new en where IH:
      "m_temp b' = m_temp b2 @ new"
      "list_all2 edge_of_job jobs new"
      "length en = length jobs"
      "jobs \<noteq> [] \<longrightarrow> o' < length (TessellatedPathPrivate.m_edges d3)
          \<and> e + 1 + length jobs \<le> length (TessellatedPathPrivate.m_edges d3 ! o')"
      "TessellatedPathPrivate.m_edges d' =
        (if jobs = [] then TessellatedPathPrivate.m_edges d3
         else (TessellatedPathPrivate.m_edges d3)
          [o' := take (e + 1) (TessellatedPathPrivate.m_edges d3 ! o') @ en
                 @ drop (e + 1 + length jobs) (TessellatedPathPrivate.m_edges d3 ! o')])"
      "map m_edge_range en = ranges_u32 (m_loc b2) new"
      "map m_edge_type en = map job_edge_type jobs"
      "m_loc b' = loc_after (m_loc b2) new"
      "m_contour_length b' = foldl float_add (m_contour_length b2) (map m_length (concat new))"
      "m_ende b' = m_ende b2"
      "m_start_contour b' =
         (if e + 1 = 0 \<and> jobs \<noteq> [] then Some (length (m_temp b2)) else m_start_contour b2)"
      "jobs \<noteq> [] \<and> e + 1 + length jobs = m_ende b2 \<and> m_ende b2 < 4294967296 \<longrightarrow>
          m_closed_contour_length b' = m_contour_length b'"
      "m_segment_data d' = m_segment_data d3"
      "m_stroked d' = m_stroked d3" "m_filled d' = m_filled d3" "m_params d' = m_params d3"
      "m_has_arcs d' = (m_has_arcs d3 \<or> (\<exists>S \<in> set (concat new). m_type S = arc_segment))"
      by blast
    have job: "edge_of_job job wr'"
      unfolding edge_of_job_def edge_local_def using run A by auto
    have E3o: "TessellatedPathPrivate.m_edges d3 ! o' = (?E ! o') [e := X]"
      using A(1) by (simp add: E3)
    have len3: "length (TessellatedPathPrivate.m_edges d3 ! o') = length (?E ! o')"
      by (simp add: E3o)
    have E': "TessellatedPathPrivate.m_edges d' =
        ?E [o' := take e (?E ! o') @ (X # en) @ drop (e + length (job # jobs)) (?E ! o')]"
    proof (cases "jobs = []")
      case True
      then have "en = []" using IH(3) by simp
      with True show ?thesis using IH(5) A(2)
        by (simp add: E3 upd_conv_take_nth_drop)
    next
      case False
      then show ?thesis using IH(5) A(1,2) update_take_drop[OF A(2), of X en "length jobs"]
        by (simp add: E3)
    qed
    have closed: "m_closed_contour_length b' = m_contour_length b'"
      if "e + length (job # jobs) = m_ende b" "m_ende b < 4294967296"
    proof (cases "jobs = []")
      case False
      then show ?thesis using IH(12) that A(16) by simp
    next
      case True
      then have new: "new = []" using IH(2) by simp
      have e1: "e + 1 = m_ende b" using that True by simp
      then have "u32 (e + 1) = m_ende b" using that(2) by (simp add: u32_id)
      moreover have "u32 (e + 2) \<noteq> m_ende b"
        using u32_Suc_neq[OF that(2)] e1 by (simp add: numeral_2_eq_2)
      ultimately have "m_closed_contour_length b2 = m_contour_length b2" using A(18) by simp
      moreover have "m_closed_contour_length b' = m_closed_contour_length b2"
        "m_contour_length b' = m_contour_length b2"
        using rest True new IH(9) by (simp_all add: d3_def[symmetric])
      ultimately show ?thesis by simp
    qed
    show ?thesis
      apply (rule exI[of _ "wr' # new"])
      apply (rule exI[of _ "X # en"])
      apply (intro conjI)
      subgoal using IH(1) A(7) by simp
      subgoal using IH(2) job by simp
      subgoal using IH(3) by simp
      subgoal using A(1,2) IH(4) len3 by (cases "jobs = []") auto
      subgoal using E' by simp
      subgoal using IH(6) A(6) A(8) by (simp add: X_def)
      subgoal using IH(7) by (simp add: X_def)
      subgoal using IH(8) A(6) A(8) by simp
      subgoal using IH(9) A(17) by simp
      subgoal using IH(10) A(16) by simp
      subgoal using IH(11) A(15) by simp
      subgoal using closed by simp
      subgoal using IH(13) d3 by simp
      subgoal using IH(14) d3 by simp
      subgoal using IH(15) d3 by simp
      subgoal using IH(16) d3 by simp
      subgoal using IH(17) d3(5) ex_type_map[OF A(11), of arc_segment] by auto
      done
  qed
qed

lemma ranges_u32_append:
  "ranges_u32 loc (xs @ ys) = ranges_u32 loc xs @ ranges_u32 (loc_after loc xs) ys"
  by (induction xs arbitrary: loc) simp_all

lemma loc_after_append:
  "loc_after loc (xs @ ys) = loc_after (loc_after loc xs) ys"
  by (induction xs arbitrary: loc) simp_all

lemma u32_u32_add: "u32 (u32 a + b) = u32 (a + b)"
  by (simp add: u32_def mod_add_left_eq)

lemma loc_after_eq: "loc_after loc vs = (if vs = [] then loc else u32 (loc + length (concat vs)))"
proof (induction vs arbitrary: loc)
  case Nil
  then show ?case by simp
next
  case (Cons v vs)
  show ?case by (simp add: Cons.IH u32_u32_add add.assoc)
qed

lemma ranges_u32_last:
  "vs \<noteq> [] \<Longrightarrow> m_end (last (ranges_u32 loc vs)) = loc_after loc vs"
proof (induction vs arbitrary: loc)
  case Nil
  then show ?case by simp
next
  case (Cons v vs)
  then show ?case by (cases vs) simp_all
qed

lemma ranges_u32_plain:
  "loc + length (concat vs) < 4294967296 \<Longrightarrow> ranges_u32 loc vs = edge_ranges loc vs"
proof (induction vs arbitrary: loc)
  case Nil
  then show ?case by simp
next
  case (Cons v vs)
  then have "u32 (loc + length v) = loc + length v" by (simp add: u32_id)
  moreover have "loc + length v + length (concat vs) < 4294967296" using Cons.prems by simp
  ultimately show ?case using Cons.IH[of "loc + length v"] by simp
qed

lemma ranges_u32_map_map [simp]: "ranges_u32 loc (map (map f) vs) = ranges_u32 loc vs"
  by (induction vs arbitrary: loc) simp_all

lemma loc_after_map_map [simp]: "loc_after loc (map (map f) vs) = loc_after loc vs"
  by (induction vs arbitrary: loc) simp_all

lemma dist_chain_set_contour_lengths:
  "dist_chain x (map (set_contour_lengths ol cl) v) = dist_chain x v"
  by (induction v arbitrary: x) (simp_all add: set_contour_lengths_def)

lemma edge_local_set_contour_lengths:
  "edge_local v \<Longrightarrow> edge_local (map (set_contour_lengths ol cl) v)"
  unfolding edge_local_def
  by (auto simp: dist_chain_set_contour_lengths last_map set_contour_lengths_def)

lemma edge_of_job_set_contour_lengths:
  "edge_of_job job v \<Longrightarrow> edge_of_job job (map (set_contour_lengths ol cl) v)"
  unfolding edge_of_job_def
  by (auto simp: edge_local_set_contour_lengths comp_def set_contour_lengths_def)

lemma end_contour_Inr:
  assumes "end_contour b = Inr b'" "m_start_contour b = Some st" "m_temp b = T @ new" "length T = st"
  shows "b' = b \<lparr> m_temp := T @ map (map (set_contour_lengths (m_open_contour_length b)
                                            (m_closed_contour_length b))) new \<rparr>"
  using assms unfolding end_contour_def set_contour_lengths_def
  by (cases "new = []") (auto split: if_splits)

lemma start_contour_Inr:
  assumes "start_contour b d o' n = Inr (d', b')"
  shows "o' < length (TessellatedPathPrivate.m_edges d)"
    "d' = d \<lparr> TessellatedPathPrivate.m_edges :=
                (TessellatedPathPrivate.m_edges d) [o' := resize n (TessellatedPathPrivate.m_edges d ! o')] \<rparr>"
    "b' = b \<lparr> m_contour_length := 0, m_open_contour_length := 0,
                 m_closed_contour_length := 0, m_ende := n \<rparr>"
  using assms unfolding start_contour_def by (auto split: if_splits)

lemma length_resize [simp]: "length (resize n xs) = n"
  by (simp add: resize_def)

lemma edge_loop_whole:
  assumes "edge_loop o' 0 ende c (d, b) = Inr (d', b')" "c \<noteq> []"
  obtains new en where
      "m_temp b' = m_temp b @ new"
      "list_all2 edge_of_job c new"
      "length en = length c"
      "TessellatedPathPrivate.m_edges d' =
        (TessellatedPathPrivate.m_edges d)
          [o' := en @ drop (length c) (TessellatedPathPrivate.m_edges d ! o')]"
      "map m_edge_range en = ranges_u32 (m_loc b) new"
      "map m_edge_type en = map job_edge_type c"
      "m_loc b' = loc_after (m_loc b) new"
      "m_contour_length b' = foldl float_add (m_contour_length b) (map m_length (concat new))"
      "m_ende b' = m_ende b"
      "m_start_contour b' = Some (length (m_temp b))"
      "length c = m_ende b \<and> m_ende b < 4294967296 \<longrightarrow>
          m_closed_contour_length b' = m_contour_length b'"
      "m_segment_data d' = m_segment_data d"
      "m_stroked d' = m_stroked d" "m_filled d' = m_filled d" "m_params d' = m_params d"
      "m_has_arcs d' = (m_has_arcs d \<or> (\<exists>S \<in> set (concat new). m_type S = arc_segment))"
  using edge_loop_inv[OF assms(1)]
  apply (elim exE conjE)
  apply (rule that)
  using assms(2) apply simp_all
  done

lemma contour_loop_Cons:
  assumes "contour_loop o' (c # cs) (d, b) = Inr (d', b')"
  obtains d1 b1 d2 b2 b3 where
    "start_contour b d o' (length c) = Inr (d1, b1)"
    "edge_loop o' 0 (length c) c (d1, b1) = Inr (d2, b2)"
    "end_contour b2 = Inr b3"
    "contour_loop (o' + 1) cs (d2, b3) = Inr (d', b')"
  using assms by (auto simp: bind_r_eq_Inr)

lemma contour_loop_inv:
  "contour_loop o' cs (d, b) = Inr (d', b') \<Longrightarrow> \<forall>c \<in> set cs. c \<noteq> [] \<Longrightarrow>
   \<exists>G En.
      m_temp b' = m_temp b @ concat G
    \<and> list_all2 (list_all2 edge_of_job) cs G
    \<and> map length En = map length G
    \<and> map m_edge_range (concat En) = ranges_u32 (m_loc b) (concat G)
    \<and> map (map m_edge_type) En = map (map job_edge_type) cs
    \<and> o' + length cs \<le> (if cs = [] then o' else length (TessellatedPathPrivate.m_edges d))
    \<and> TessellatedPathPrivate.m_edges d' =
         take o' (TessellatedPathPrivate.m_edges d) @ En
         @ drop (o' + length cs) (TessellatedPathPrivate.m_edges d)
    \<and> m_loc b' = loc_after (m_loc b) (concat G)
    \<and> (\<forall>g \<in> set G. length g < 4294967296 \<longrightarrow> contour_closed g)
    \<and> m_segment_data d' = m_segment_data d
    \<and> m_stroked d' = m_stroked d \<and> m_filled d' = m_filled d \<and> m_params d' = m_params d
    \<and> m_has_arcs d' = (m_has_arcs d \<or> (\<exists>S \<in> set (concat (concat G)). m_type S = arc_segment))"
proof (induction cs arbitrary: o' d b)
  case Nil
  then show ?case by simp
next
  case (Cons c cs)
  from Cons.prems(1) show ?case
  proof (rule contour_loop_Cons)
    fix d1 :: TessellatedPathPrivate and b1 and d2 :: TessellatedPathPrivate and b2 b3
    assume start: "start_contour b d o' (length c) = Inr (d1, b1)"
      and edges: "edge_loop o' 0 (length c) c (d1, b1) = Inr (d2, b2)"
      and endc: "end_contour b2 = Inr b3"
      and rest: "contour_loop (o' + 1) cs (d2, b3) = Inr (d', b')"
    let ?E = "TessellatedPathPrivate.m_edges d"
    note S = start_contour_Inr[OF start]
    have c_ne: "c \<noteq> []" using Cons.prems(2) by simp
    have E1: "TessellatedPathPrivate.m_edges d1 = ?E [o' := resize (length c) (?E ! o')]"
      by (simp add: S(2))
    have E1o: "TessellatedPathPrivate.m_edges d1 ! o' = resize (length c) (?E ! o')"
      using S(1) by (simp add: E1)
    have b1: "m_temp b1 = m_temp b" "m_loc b1 = m_loc b" "m_contour_length b1 = 0"
      "m_ende b1 = length c" "m_start_contour b1 = m_start_contour b"
      by (simp_all add: S(3))
    have d1: "m_segment_data d1 = m_segment_data d" "m_stroked d1 = m_stroked d"
      "m_filled d1 = m_filled d" "m_params d1 = m_params d" "m_has_arcs d1 = m_has_arcs d"
      by (simp_all add: S(2))
    from edges c_ne obtain new en where EL:
      "m_temp b2 = m_temp b1 @ new"
      "list_all2 edge_of_job c new"
      "length en = length c"
      "TessellatedPathPrivate.m_edges d2 =
        (TessellatedPathPrivate.m_edges d1)
          [o' := en @ drop (length c) (TessellatedPathPrivate.m_edges d1 ! o')]"
      "map m_edge_range en = ranges_u32 (m_loc b1) new"
      "map m_edge_type en = map job_edge_type c"
      "m_loc b2 = loc_after (m_loc b1) new"
      "m_contour_length b2 = foldl float_add (m_contour_length b1) (map m_length (concat new))"
      "m_ende b2 = m_ende b1"
      "m_start_contour b2 = Some (length (m_temp b1))"
      "length c = m_ende b1 \<and> m_ende b1 < 4294967296 \<longrightarrow>
          m_closed_contour_length b2 = m_contour_length b2"
      "m_segment_data d2 = m_segment_data d1"
      "m_stroked d2 = m_stroked d1" "m_filled d2 = m_filled d1" "m_params d2 = m_params d1"
      "m_has_arcs d2 = (m_has_arcs d1 \<or> (\<exists>S \<in> set (concat new). m_type S = arc_segment))"
      by (rule edge_loop_whole)
    have E2: "TessellatedPathPrivate.m_edges d2 = ?E [o' := en]"
      using EL(4) S(1) by (simp add: E1)
    define new' where "new' = map (map (set_contour_lengths (m_open_contour_length b2)
                                            (m_closed_contour_length b2))) new"
    have b3: "b3 = b2 \<lparr> m_temp := m_temp b @ new' \<rparr>"
      unfolding new'_def
      by (rule end_contour_Inr[OF endc EL(10)]) (simp_all add: EL(1) b1)
    have len_new: "length new = length c" using EL(2) by (simp add: list_all2_lengthD)
    have new'_jobs: "list_all2 edge_of_job c new'"
      using EL(2) unfolding new'_def
      by (simp add: list_all2_conv_all_nth edge_of_job_set_contour_lengths)
    have lens: "map m_length (concat new') = map m_length (concat new)"
      unfolding new'_def by (simp add: map_concat comp_def set_contour_lengths_def)
    have closed: "contour_closed new'" if "length new' < 4294967296"
    proof -
      have "length c < 4294967296" using that len_new by (simp add: new'_def)
      then have "m_closed_contour_length b2 = float_sum (map m_length (concat new))"
        using EL(11) EL(8) b1 by (simp add: float_sum_def)
      then show ?thesis unfolding contour_closed_def lens
        by (auto simp: new'_def set_contour_lengths_def)
    qed
    have types: "(\<exists>S \<in> set (concat new'). m_type S = arc_segment)
                = (\<exists>S \<in> set (concat new). m_type S = arc_segment)"
      by (rule ex_type_map) (simp add: new'_def map_concat comp_def set_contour_lengths_def)
    have b3f: "m_temp b3 = m_temp b @ new'" "m_loc b3 = loc_after (m_loc b) new"
      using EL(7) by (simp_all add: b3 b1)
    have cs_ne: "\<forall>c \<in> set cs. c \<noteq> []" using Cons.prems(2) by simp
    from Cons.IH[OF rest cs_ne] obtain G En where IH:
      "m_temp b' = m_temp b3 @ concat G"
      "list_all2 (list_all2 edge_of_job) cs G"
      "map length En = map length G"
      "map m_edge_range (concat En) = ranges_u32 (m_loc b3) (concat G)"
      "map (map m_edge_type) En = map (map job_edge_type) cs"
      "o' + 1 + length cs \<le> (if cs = [] then o' + 1 else length (TessellatedPathPrivate.m_edges d2))"
      "TessellatedPathPrivate.m_edges d' =
         take (o' + 1) (TessellatedPathPrivate.m_edges d2) @ En
         @ drop (o' + 1 + length cs) (TessellatedPathPrivate.m_edges d2)"
      "m_loc b' = loc_after (m_loc b3) (concat G)"
      "\<forall>g \<in> set G. length g < 4294967296 \<longrightarrow> contour_closed g"
      "m_segment_data d' = m_segment_data d2"
      "m_stroked d' = m_stroked d2" "m_filled d' = m_filled d2" "m_params d' = m_params d2"
      "m_has_arcs d' = (m_has_arcs d2 \<or> (\<exists>S \<in> set (concat (concat G)). m_type S = arc_segment))"
      by blast
    have E': "TessellatedPathPrivate.m_edges d' =
         take o' ?E @ (en # En) @ drop (o' + length (c # cs)) ?E"
      using IH(7) S(1) by (simp add: E2 take_Suc_conv_app_nth)
    have bound: "o' + length (c # cs) \<le> length ?E"
      using IH(6) S(1) by (cases "cs = []") (auto simp: E2)
    show ?thesis
      apply (rule exI[of _ "new' # G"])
      apply (rule exI[of _ "en # En"])
      apply (intro conjI)
      subgoal using IH(1) b3f by simp
      subgoal using IH(2) new'_jobs by simp
      subgoal using IH(3) EL(3) len_new by (simp add: new'_def)
      subgoal using IH(4) EL(5) b3f b1 by (simp add: ranges_u32_append new'_def)
      subgoal using IH(5) EL(6) by simp
      subgoal using bound by simp
      subgoal using E' by simp
      subgoal using IH(8) b3f by (simp add: loc_after_append new'_def)
      subgoal using IH(9) closed by simp
      subgoal using IH(10) EL(12) d1 by simp
      subgoal using IH(11) EL(13) d1 by simp
      subgoal using IH(12) EL(14) d1 by simp
      subgoal using IH(13) EL(15) d1 by simp
      subgoal using IH(14) EL(16) d1 types by auto
      done
  qed
qed

lemma length_edge_ranges [simp]: "length (edge_ranges off g) = length g"
  by (induction g arbitrary: off) simp_all

lemma length_contour_ranges [simp]: "length (contour_ranges off G) = length G"
  by (induction G arbitrary: off) simp_all

lemma edge_ranges_append:
  "edge_ranges off (xs @ ys) = edge_ranges off xs @ edge_ranges (off + length (concat xs)) ys"
  by (induction xs arbitrary: off) (simp_all add: add.assoc)

lemma contour_ranges_flat:
  "map length En = map length G \<Longrightarrow>
   map m_edge_range (concat En) = edge_ranges off (concat G) \<Longrightarrow>
   map (map m_edge_range) En = contour_ranges off G"
proof (induction G arbitrary: En off)
  case Nil
  then show ?case by simp
next
  case (Cons g G)
  from Cons.prems(1) obtain en En' where En: "En = en # En'" "length en = length g"
    "map length En' = map length G"
    by (cases En) auto
  have "map m_edge_range en @ map m_edge_range (concat En')
        = edge_ranges off g @ edge_ranges (off + length (concat g)) (concat G)"
    using Cons.prems(2) by (simp add: En edge_ranges_append)
  then have "map m_edge_range en = edge_ranges off g"
    "map m_edge_range (concat En') = edge_ranges (off + length (concat g)) (concat G)"
    using En(2) by simp_all
  then show ?case using Cons.IH[OF En(3)] by (simp add: En)
qed

lemma edge_ranges_nth:
  "e < length g \<Longrightarrow>
   edge_ranges off g ! e =
     \<lparr> m_begin = off + length (concat (take e g)),
       m_end = off + length (concat (take e g)) + length (g ! e) \<rparr>"
proof (induction g arbitrary: off e)
  case Nil
  then show ?case by simp
next
  case (Cons v g)
  then show ?case by (cases e) (simp_all add: add.assoc)
qed

lemma contour_ranges_nth:
  "o' < length G \<Longrightarrow>
   contour_ranges off G ! o' = edge_ranges (off + length (concat (concat (take o' G)))) (G ! o')"
proof (induction G arbitrary: off o')
  case Nil
  then show ?case by simp
next
  case (Cons g G)
  then show ?case by (cases o') (simp_all add: add.assoc)
qed

lemma sub_array_concat:
  assumes "k < length xss"
  shows "sub_array \<lparr> m_begin = length (concat (take k xss)),
                     m_end = length (concat (take k xss)) + length (xss ! k) \<rparr> (concat xss)
         = xss ! k"
proof -
  have "concat xss = concat (take k xss) @ xss ! k @ concat (drop (Suc k) xss)"
    using id_take_nth_drop[OF assms] by (metis concat.simps(2) concat_append)
  then have "drop (length (concat (take k xss))) (concat xss) = xss ! k @ concat (drop (Suc k) xss)"
    by (metis append_eq_conv_conj)
  then show ?thesis by (simp add: sub_array_def)
qed

lemma loc_after_ne: "vs \<noteq> [] \<Longrightarrow> loc_after loc vs = u32 (loc + length (concat vs))"
  by (simp add: loc_after_eq)

lemma length_ranges_u32 [simp]: "length (ranges_u32 loc vs) = length vs"
  by (induction vs arbitrary: loc) simp_all

lemma last_concat:
  "xss \<noteq> [] \<Longrightarrow> last xss \<noteq> [] \<Longrightarrow> last (concat xss) = last (last xss)"
  by (induction xss) (auto simp: last_append)

lemma length_le_concat:
  "\<forall>v \<in> set g. v \<noteq> [] \<Longrightarrow> length g \<le> length (concat g)"
proof (induction g)
  case Nil
  then show ?case by simp
next
  case (Cons v g)
  then have "1 \<le> length v" by (cases v) auto
  with Cons show ?case by simp
qed

lemma length_concat_mem:
  "g \<in> set G \<Longrightarrow> length (concat g) \<le> length (concat (concat G))"
  by (induction G) auto

lemma list_all2_nested_set:
  assumes "list_all2 (list_all2 P) xss yss" "ys \<in> set yss" "y \<in> set ys"
  obtains x where "P x y"
proof -
  from assms(2) obtain i where i: "i < length yss" "yss ! i = ys"
    by (auto simp: in_set_conv_nth)
  have inner: "list_all2 P (xss ! i) ys"
    using list_all2_nthD2[OF assms(1) i(1)] i(2) by simp
  from assms(3) obtain j where j: "j < length ys" "ys ! j = y"
    by (auto simp: in_set_conv_nth)
  have "P (xss ! i ! j) y"
    using list_all2_nthD2[OF inner j(1)] j(2) by simp
  then show thesis by (rule that)
qed

lemma finalize_Inr:
  assumes "finalize b d = Inr d'"
  shows "TessellatedPathPrivate.m_edges d \<noteq> []" "last (TessellatedPathPrivate.m_edges d) \<noteq> []"
    "d' = d \<lparr> m_segment_data := m_segment_data d @ concat (m_temp b) \<rparr>"
    "m_end (m_edge_range (last (last (TessellatedPathPrivate.m_edges d))))
       = length (m_segment_data d @ concat (m_temp b))"
  using assms unfolding finalize_def by (auto simp: Let_def split: if_splits)

lemma tessellate_contours_structure:
  assumes "tessellate_contours params jobs = Inr d" "\<forall>c \<in> set jobs. c \<noteq> []"
  obtains G where
    "list_all2 (list_all2 edge_of_job) jobs G"
    "m_segment_data d = concat (concat G)"
    "map (map m_edge_range) (TessellatedPathPrivate.m_edges d) = contour_ranges 0 G"
    "map (map m_edge_type) (TessellatedPathPrivate.m_edges d) = map (map job_edge_type) jobs"
    "\<forall>g \<in> set G. contour_closed g"
    "length (concat (concat G)) < 4294967296"
    "m_stroked d = None" "m_filled d = None" "m_params d = params"
    "m_has_arcs d = (\<exists>S \<in> set (concat (concat G)). m_type S = arc_segment)"
proof (cases "jobs = []")
  case True
  then have "d = TessellatedPathPrivate_init 0 params"
    using assms(1) by (simp add: tessellate_contours_def)
  then show ?thesis using True
    by (intro that[of "[]"]) (simp_all add: TessellatedPathPrivate_init_def)
next
  case False
  define d0 where "d0 = TessellatedPathPrivate_init (length jobs) params"
  from assms(1) False obtain d1 b1 where
    loop: "contour_loop 0 jobs (d0, TessellatedPathBuildingState_init) = Inr (d1, b1)"
    and fin: "finalize b1 d1 = Inr d"
    by (auto simp: tessellate_contours_def Let_def d0_def bind_r_eq_Inr)
  have d0: "TessellatedPathPrivate.m_edges d0 = replicate (length jobs) []"
    "m_segment_data d0 = []" "m_stroked d0 = None" "m_filled d0 = None"
    "m_params d0 = params" "m_has_arcs d0 = False"
    by (simp_all add: d0_def TessellatedPathPrivate_init_def)
  have b0: "m_temp TessellatedPathBuildingState_init = []"
    "m_loc TessellatedPathBuildingState_init = 0"
    by (simp_all add: TessellatedPathBuildingState_init_def)
  from contour_loop_inv[OF loop assms(2)] obtain G En where L:
    "m_temp b1 = m_temp TessellatedPathBuildingState_init @ concat G"
    "list_all2 (list_all2 edge_of_job) jobs G"
    "map length En = map length G"
    "map m_edge_range (concat En) = ranges_u32 (m_loc TessellatedPathBuildingState_init) (concat G)"
    "map (map m_edge_type) En = map (map job_edge_type) jobs"
    "TessellatedPathPrivate.m_edges d1 =
         take 0 (TessellatedPathPrivate.m_edges d0) @ En
         @ drop (0 + length jobs) (TessellatedPathPrivate.m_edges d0)"
    "\<forall>g \<in> set G. length g < 4294967296 \<longrightarrow> contour_closed g"
    "m_segment_data d1 = m_segment_data d0"
    "m_stroked d1 = m_stroked d0" "m_filled d1 = m_filled d0" "m_params d1 = m_params d0"
    "m_has_arcs d1 = (m_has_arcs d0 \<or> (\<exists>S \<in> set (concat (concat G)). m_type S = arc_segment))"
    by blast
  have E1: "TessellatedPathPrivate.m_edges d1 = En" using L(6) by (simp add: d0)
  have T1: "m_temp b1 = concat G" using L(1) by (simp add: b0)
  note F = finalize_Inr[OF fin]
  have En_ne: "En \<noteq> []" "last En \<noteq> []" using F(1,2) by (simp_all add: E1)
  have seg: "m_segment_data d = concat (concat G)" by (simp add: F(3) L(8) d0 T1)
  have cEn_ne: "concat En \<noteq> []" using En_ne by (cases En rule: rev_cases) auto
  have "length (concat En) = length (concat G)"
    using arg_cong[OF L(4), of length] by simp
  then have cG_ne: "concat G \<noteq> []" using cEn_ne by (metis length_0_conv)
  have "m_edge_range (last (last En)) = last (map m_edge_range (concat En))"
    using cEn_ne En_ne by (simp add: last_map last_concat)
  also have "\<dots> = last (ranges_u32 0 (concat G))" using L(4) by (simp add: b0)
  finally have "m_end (m_edge_range (last (last En))) = loc_after 0 (concat G)"
    using cG_ne by (simp add: ranges_u32_last)
  moreover have "m_end (m_edge_range (last (last En))) = length (concat (concat G))"
    using F(4) by (simp add: E1 L(8) d0 T1)
  moreover have "loc_after 0 (concat G) = u32 (0 + length (concat (concat G)))"
    by (rule loc_after_ne[OF cG_ne])
  ultimately have "u32 (length (concat (concat G))) = length (concat (concat G))"
    by simp
  then have total: "length (concat (concat G)) < 4294967296"
    by (metis u32_lt)
  have ranges: "map (map m_edge_range) En = contour_ranges 0 G"
    by (rule contour_ranges_flat[OF L(3)]) (simp add: L(4) b0 ranges_u32_plain total)
  have closed: "contour_closed g" if g: "g \<in> set G" for g
  proof -
    have "v \<noteq> []" if "v \<in> set g" for v
    proof -
      from L(2) g that obtain job where "edge_of_job job v" by (rule list_all2_nested_set)
      then show ?thesis by (simp add: edge_of_job_def edge_local_def)
    qed
    then have "length g \<le> length (concat g)" by (intro length_le_concat) blast
    also have "\<dots> \<le> length (concat (concat G))" by (rule length_concat_mem[OF g])
    finally have "length g < 4294967296" using total by simp
    then show ?thesis using L(7) g by simp
  qed
  show ?thesis
  proof (rule that[of G])
    show "list_all2 (list_all2 edge_of_job) jobs G" by (rule L(2))
    show "m_segment_data d = concat (concat G)" by (rule seg)
    show "map (map m_edge_range) (TessellatedPathPrivate.m_edges d) = contour_ranges 0 G"
      using ranges by (simp add: F(3) E1)
    show "map (map m_edge_type) (TessellatedPathPrivate.m_edges d) = map (map job_edge_type) jobs"
      using L(5) by (simp add: F(3) E1)
    show "\<forall>g \<in> set G. contour_closed g" using closed by blast
    show "length (concat (concat G)) < 4294967296" by (rule total)
    show "m_stroked d = None" by (simp add: F(3) L(9) d0)
    show "m_filled d = None" by (simp add: F(3) L(10) d0)
    show "m_params d = params" by (simp add: F(3) L(11) d0)
    show "m_has_arcs d = (\<exists>S \<in> set (concat (concat G)). m_type S = arc_segment)"
      by (simp add: F(3) L(12) d0)
  qed
qed

section \<open>The structure of a tessellated path\<close>

lemma TessellatedPath_tessellate:
  assumes "TessellatedPath jobs d"
  obtains params where "tessellate_contours params jobs = Inr d"
  using assms
proof cases
  case (of_Path input TP want_ref r)
  then have "tessellate_contours TP (path_jobs TP input) = Inr d"
    by (auto simp: TessellatedPath_of_Path_def bind_r_eq_Inr)
  then show ?thesis using of_Path(1) that by blast
next
  case (of_Refiner ref_d max_dist arc contours)
  then have "tessellate_contours (refiner_params ref_d max_dist arc)
               (refiner_jobs (refiner_params ref_d max_dist arc) ref_d) = Inr d"
    by (auto simp: TessellatedPath_of_Refiner_def Let_def bind_r_eq_Inr)
  then show ?thesis using of_Refiner(1) that by blast
qed

lemma contour_loop_shape:
  "contour_loop o' cs (d, b) = Inr (d', b') \<Longrightarrow>
   \<exists>En. map length En = map length cs
    \<and> o' + length cs \<le> (if cs = [] then o' else length (TessellatedPathPrivate.m_edges d))
    \<and> TessellatedPathPrivate.m_edges d' =
         take o' (TessellatedPathPrivate.m_edges d) @ En
         @ drop (o' + length cs) (TessellatedPathPrivate.m_edges d)"
proof (induction cs arbitrary: o' d b)
  case Nil
  then show ?case by simp
next
  case (Cons c cs)
  from Cons.prems(1) show ?case
  proof (rule contour_loop_Cons)
    fix d1 :: TessellatedPathPrivate and b1 and d2 :: TessellatedPathPrivate and b2 b3
    assume start: "start_contour b d o' (length c) = Inr (d1, b1)"
      and edges: "edge_loop o' 0 (length c) c (d1, b1) = Inr (d2, b2)"
      and rest: "contour_loop (o' + 1) cs (d2, b3) = Inr (d', b')"
    let ?E = "TessellatedPathPrivate.m_edges d"
    note S = start_contour_Inr[OF start]
    have E1: "TessellatedPathPrivate.m_edges d1 = ?E [o' := resize (length c) (?E ! o')]"
      by (simp add: S(2))
    from edge_loop_inv[OF edges] obtain en where EL: "length en = length c"
      "TessellatedPathPrivate.m_edges d2 =
        (if c = [] then TessellatedPathPrivate.m_edges d1
         else (TessellatedPathPrivate.m_edges d1)
          [o' := take 0 (TessellatedPathPrivate.m_edges d1 ! o') @ en
                 @ drop (0 + length c) (TessellatedPathPrivate.m_edges d1 ! o')])"
      by blast
    define en' where "en' = (if c = [] then resize 0 (?E ! o') else en)"
    have len: "length en' = length c" using EL(1) by (simp add: en'_def)
    have E2: "TessellatedPathPrivate.m_edges d2 = ?E [o' := en']"
      using EL(2) S(1) by (simp add: E1 en'_def)
    from Cons.IH[OF rest] obtain En where IH:
      "map length En = map length cs"
      "o' + 1 + length cs \<le> (if cs = [] then o' + 1 else length (TessellatedPathPrivate.m_edges d2))"
      "TessellatedPathPrivate.m_edges d' =
         take (o' + 1) (TessellatedPathPrivate.m_edges d2) @ En
         @ drop (o' + 1 + length cs) (TessellatedPathPrivate.m_edges d2)"
      by blast
    have E': "TessellatedPathPrivate.m_edges d' =
         take o' ?E @ (en' # En) @ drop (o' + length (c # cs)) ?E"
      using IH(3) S(1) by (simp add: E2 take_Suc_conv_app_nth)
    have bound: "o' + length (c # cs) \<le> length ?E"
      using IH(2) S(1) by (cases "cs = []") (auto simp: E2)
    show ?thesis
      apply (rule exI[of _ "en' # En"])
      using IH(1) len E' bound by simp
  qed
qed

lemma tessellate_contours_shape:
  assumes "tessellate_contours params jobs = Inr d"
  shows "map length (TessellatedPathPrivate.m_edges d) = map length jobs"
proof (cases "jobs = []")
  case True
  then show ?thesis using assms
    by (auto simp: tessellate_contours_def TessellatedPathPrivate_init_def)
next
  case False
  define d0 where "d0 = TessellatedPathPrivate_init (length jobs) params"
  from assms False obtain d1 b1 where
    loop: "contour_loop 0 jobs (d0, TessellatedPathBuildingState_init) = Inr (d1, b1)"
    and fin: "finalize b1 d1 = Inr d"
    by (auto simp: tessellate_contours_def Let_def d0_def bind_r_eq_Inr)
  have d0: "TessellatedPathPrivate.m_edges d0 = replicate (length jobs) []"
    by (simp add: d0_def TessellatedPathPrivate_init_def)
  from contour_loop_shape[OF loop] obtain En where
    "map length En = map length jobs"
    "TessellatedPathPrivate.m_edges d1 =
         take 0 (TessellatedPathPrivate.m_edges d0) @ En
         @ drop (0 + length jobs) (TessellatedPathPrivate.m_edges d0)"
    by blast
  then show ?thesis using finalize_Inr(3)[OF fin] by (simp add: d0)
qed

text \<open>What the structure of a path says about its accessors.\<close>

lemma structure_accessors:
  assumes ranges: "map (map m_edge_range) (TessellatedPathPrivate.m_edges d) = contour_ranges 0 G"
    and seg: "m_segment_data d = concat (concat G)"
  shows "number_contours d = length G"
    and "o' < length G \<Longrightarrow> number_edges d o' = length (G ! o')"
    and "o' < length G \<Longrightarrow> e < length (G ! o') \<Longrightarrow>
          edge_range d o' e =
            \<lparr> m_begin = length (concat (concat (take o' G))) + length (concat (take e (G ! o'))),
              m_end = length (concat (concat (take o' G))) + length (concat (take e (G ! o')))
                      + length (G ! o' ! e) \<rparr>"
    and "o' < length G \<Longrightarrow> e < length (G ! o') \<Longrightarrow> edge_segment_data d o' e = G ! o' ! e"
proof -
  have len: "length (TessellatedPathPrivate.m_edges d) = length G"
    using arg_cong[OF ranges, of length] by simp
  show "number_contours d = length G" by (simp add: number_contours_def len)
  have row: "map m_edge_range (TessellatedPathPrivate.m_edges d ! o') =
       edge_ranges (length (concat (concat (take o' G)))) (G ! o')" if "o' < length G"
  proof -
    have "map (map m_edge_range) (TessellatedPathPrivate.m_edges d) ! o' = contour_ranges 0 G ! o'"
      using ranges by simp
    then show ?thesis using that len by (simp add: contour_ranges_nth)
  qed
  show ne: "number_edges d o' = length (G ! o')" if "o' < length G"
    using arg_cong[OF row[OF that], of length] by (simp add: number_edges_def)
  show er: "edge_range d o' e =
            \<lparr> m_begin = length (concat (concat (take o' G))) + length (concat (take e (G ! o'))),
              m_end = length (concat (concat (take o' G))) + length (concat (take e (G ! o')))
                      + length (G ! o' ! e) \<rparr>"
    if "o' < length G" "e < length (G ! o')"
  proof -
    have "e < length (TessellatedPathPrivate.m_edges d ! o')"
      using ne[OF that(1)] that(2) by (simp add: number_edges_def)
    then have "m_edge_range (TessellatedPathPrivate.m_edges d ! o' ! e)
          = map m_edge_range (TessellatedPathPrivate.m_edges d ! o') ! e" by simp
    also have "\<dots> = edge_ranges (length (concat (concat (take o' G)))) (G ! o') ! e"
      by (simp add: row[OF that(1)])
    finally show ?thesis using that(2) by (simp add: edge_range_def edge_ranges_nth)
  qed
  show "edge_segment_data d o' e = G ! o' ! e" if "o' < length G" "e < length (G ! o')"
  proof -
    let ?a = "length (concat (concat (take o' G)))"
    let ?b = "length (concat (take e (G ! o')))"
    have 1: "concat (concat G) = concat (concat (take o' G)) @ concat (G ! o') @ concat (concat (drop (Suc o') G))"
      using id_take_nth_drop[OF that(1)] by (metis concat.simps(2) concat_append)
    have 2: "concat (G ! o') = concat (take e (G ! o')) @ G ! o' ! e @ concat (drop (Suc e) (G ! o'))"
      using id_take_nth_drop[OF that(2)] by (metis concat.simps(2) concat_append)
    have "drop (?a + ?b) (concat (concat G)) = drop ?b (drop ?a (concat (concat G)))"
      by (simp add: add.commute)
    also have "drop ?a (concat (concat G)) = concat (G ! o') @ concat (concat (drop (Suc o') G))"
      by (metis 1 append_eq_conv_conj)
    also have "drop ?b (concat (G ! o') @ concat (concat (drop (Suc o') G)))
        = (G ! o' ! e @ concat (drop (Suc e) (G ! o'))) @ concat (concat (drop (Suc o') G))"
      by (subst 2) simp
    finally have "take (length (G ! o' ! e)) (drop (?a + ?b) (concat (concat G))) = G ! o' ! e"
      by simp
    then show ?thesis by (simp add: edge_segment_data_def er[OF that] sub_array_def seg)
  qed
qed

lemma concat_take_Suc:
  "k < length xs \<Longrightarrow> concat (take (Suc k) xs) = concat (take k xs) @ xs ! k"
  by (simp add: take_Suc_conv_app_nth)

lemma TessellatedPath_structure:
  assumes "TessellatedPath jobs d" "\<forall>o' < number_contours d. 0 < number_edges d o'"
  obtains G where
    "list_all2 (list_all2 edge_of_job) jobs G"
    "m_segment_data d = concat (concat G)"
    "map (map m_edge_range) (TessellatedPathPrivate.m_edges d) = contour_ranges 0 G"
    "\<forall>g \<in> set G. contour_closed g"
    "\<forall>g \<in> set G. g \<noteq> []"
    "number_contours d = length G"
proof -
  from assms(1) obtain params where t: "tessellate_contours params jobs = Inr d"
    by (rule TessellatedPath_tessellate)
  have shape: "map length (TessellatedPathPrivate.m_edges d) = map length jobs"
    by (rule tessellate_contours_shape[OF t])
  have ne: "\<forall>c \<in> set jobs. c \<noteq> []"
  proof
    fix c assume "c \<in> set jobs"
    then obtain o' where o': "o' < length jobs" "jobs ! o' = c" by (auto simp: in_set_conv_nth)
    have len: "length (TessellatedPathPrivate.m_edges d) = length jobs"
      using arg_cong[OF shape, of length] by simp
    have "length (TessellatedPathPrivate.m_edges d ! o') = length (jobs ! o')"
      using arg_cong[OF shape, of "\<lambda>xs. xs ! o'"] o'(1) len by simp
    moreover have "0 < number_edges d o'" using assms(2) o'(1) len by (simp add: number_contours_def)
    ultimately show "c \<noteq> []" using o'(2) by (auto simp: number_edges_def)
  qed
  from t ne obtain G where G:
    "list_all2 (list_all2 edge_of_job) jobs G"
    "m_segment_data d = concat (concat G)"
    "map (map m_edge_range) (TessellatedPathPrivate.m_edges d) = contour_ranges 0 G"
    "\<forall>g \<in> set G. contour_closed g"
    by (rule tessellate_contours_structure) blast
  have "\<forall>g \<in> set G. g \<noteq> []"
  proof
    fix g assume "g \<in> set G"
    then obtain o' where o': "o' < length G" "G ! o' = g" by (auto simp: in_set_conv_nth)
    have "list_all2 edge_of_job (jobs ! o') g"
      using list_all2_nthD2[OF G(1) o'(1)] o'(2) by simp
    moreover have "jobs ! o' \<in> set jobs" using o'(1) list_all2_lengthD[OF G(1)] by simp
    ultimately show "g \<noteq> []" using ne by auto
  qed
  then show thesis using G structure_accessors(1)[OF G(3) G(2)] that by blast
qed

text \<open>
  C10. In a tessellated path whose contours all have an edge, the ranges of the edges
  divide the segment buffer without gap or overlap: the first edge of the first contour
  begins at 0, each further edge of a contour begins where the edge before it ends, the
  first edge of the next contour begins where the last edge of the contour ends, and the
  last edge of the last contour ends at the size of \<open>segment_data\<close>.
\<close>

theorem edge_ranges_partition:
  assumes "TessellatedPath jobs d" "\<forall>o' < number_contours d. 0 < number_edges d o'"
  shows "(0 < number_contours d \<longrightarrow> m_begin (edge_range d 0 0) = 0)
       \<and> (\<forall>o' e. o' < number_contours d \<and> e + 1 < number_edges d o' \<longrightarrow>
             m_begin (edge_range d o' (e + 1)) = m_end (edge_range d o' e))
       \<and> (\<forall>o'. o' + 1 < number_contours d \<longrightarrow>
             m_begin (edge_range d (o' + 1) 0) = m_end (edge_range d o' (number_edges d o' - 1)))
       \<and> (0 < number_contours d \<longrightarrow>
             m_end (edge_range d (number_contours d - 1)
                      (number_edges d (number_contours d - 1) - 1)) = length (segment_data d))"
proof -
  from assms obtain G where G:
    "m_segment_data d = concat (concat G)"
    "map (map m_edge_range) (TessellatedPathPrivate.m_edges d) = contour_ranges 0 G"
    "\<forall>g \<in> set G. g \<noteq> []"
    "number_contours d = length G"
    by (rule TessellatedPath_structure) blast
  note acc = structure_accessors[OF G(2) G(1)]
  have gne: "G ! o' \<noteq> []" if "o' < length G" for o' using G(3) that by simp
  have first: "m_begin (edge_range d o' 0) = length (concat (concat (take o' G)))"
    if "o' < length G" for o'
    using acc(3)[OF that, of 0] gne[OF that] by simp
  have last: "m_end (edge_range d o' (number_edges d o' - 1))
                = length (concat (concat (take (Suc o') G)))"
    if "o' < length G" for o'
  proof -
    define n where "n = length (G ! o')"
    have n: "0 < n" using gne[OF that] by (simp add: n_def)
    have "concat (take (n - 1) (G ! o')) @ G ! o' ! (n - 1) = concat (take (Suc (n - 1)) (G ! o'))"
      using n by (subst concat_take_Suc) (simp_all add: n_def)
    also have "\<dots> = concat (G ! o')" using n by (simp add: n_def)
    finally have "length (concat (take (n - 1) (G ! o'))) + length (G ! o' ! (n - 1))
                  = length (concat (G ! o'))"
      by (metis length_append)
    moreover have "m_end (edge_range d o' (n - 1)) =
        length (concat (concat (take o' G))) + length (concat (take (n - 1) (G ! o')))
          + length (G ! o' ! (n - 1))"
      using acc(3)[OF that, of "n - 1"] n by (simp add: n_def)
    ultimately show ?thesis
      using that by (simp add: acc(2)[OF that] n_def[symmetric] concat_take_Suc)
  qed
  have next_edge: "m_begin (edge_range d o' (e + 1)) = m_end (edge_range d o' e)"
    if "o' < length G" "e + 1 < length (G ! o')" for o' e
  proof -
    have e: "e < length (G ! o')" using that(2) by simp
    show ?thesis using acc(3)[OF that] acc(3)[OF that(1) e] e by (simp add: concat_take_Suc)
  qed
  show ?thesis
  proof (intro conjI allI impI)
    assume "0 < number_contours d"
    then show "m_begin (edge_range d 0 0) = 0" using first[of 0] by (simp add: G(4))
  next
    fix o' e assume "o' < number_contours d \<and> e + 1 < number_edges d o'"
    then have "o' < length G" "e + 1 < length (G ! o')"
      using acc(2)[of o'] by (simp_all add: G(4))
    then show "m_begin (edge_range d o' (e + 1)) = m_end (edge_range d o' e)"
      by (rule next_edge)
  next
    fix o' assume "o' + 1 < number_contours d"
    then show "m_begin (edge_range d (o' + 1) 0) = m_end (edge_range d o' (number_edges d o' - 1))"
      using first[of "o' + 1"] last[of o'] by (simp add: G(4))
  next
    assume "0 < number_contours d"
    then show "m_end (edge_range d (number_contours d - 1)
                      (number_edges d (number_contours d - 1) - 1)) = length (segment_data d)"
      using last[of "length G - 1"] by (simp add: G(4) G(1) segment_data_def)
  qed
qed

lemma dist_chain_nth:
  "dist_chain x ss \<Longrightarrow>
     (ss \<noteq> [] \<longrightarrow> m_distance_from_edge_start (ss ! 0) = x)
   \<and> (\<forall>i. i + 1 < length ss \<longrightarrow>
          m_distance_from_edge_start (ss ! (i + 1))
            = float_add (m_distance_from_edge_start (ss ! i)) (m_length (ss ! i)))"
proof (induction ss arbitrary: x)
  case Nil
  then show ?case by simp
next
  case (Cons S ss)
  then have IH: "(ss \<noteq> [] \<longrightarrow> m_distance_from_edge_start (ss ! 0) = float_add x (m_length S))"
    "\<forall>i. i + 1 < length ss \<longrightarrow>
          m_distance_from_edge_start (ss ! (i + 1))
            = float_add (m_distance_from_edge_start (ss ! i)) (m_length (ss ! i))"
    and S: "m_distance_from_edge_start S = x"
    by auto
  show ?case
  proof (intro conjI impI allI)
    show "m_distance_from_edge_start ((S # ss) ! 0) = x" using S by simp
  next
    fix i assume i: "i + 1 < length (S # ss)"
    show "m_distance_from_edge_start ((S # ss) ! (i + 1))
            = float_add (m_distance_from_edge_start ((S # ss) ! i)) (m_length ((S # ss) ! i))"
    proof (cases i)
      case 0
      then show ?thesis using IH(1) S i by auto
    next
      case (Suc j)
      then show ?thesis using IH(2) i by auto
    qed
  qed
qed

text \<open>
  C3 (amended). In a tessellated path whose contours all have an edge, for every edge:
  there is a segment, the first segment has distance 0 from the start of the edge, each
  further segment has the distance of the segment before it plus the length of that
  segment, every segment has as its edge length the distance of the last segment plus
  the length of the last segment, each sum taken in \<^verbatim>\<open>float\<close>; and every segment has as
  its closed contour length the running \<^verbatim>\<open>float\<close> sum of the lengths of the segments of
  all edges of its contour, added one by one in their order.
\<close>

theorem distance_fields:
  assumes "TessellatedPath jobs d" "\<forall>o' < number_contours d. 0 < number_edges d o'"
  shows "(\<forall>o' e. o' < number_contours d \<and> e < number_edges d o' \<longrightarrow>
            edge_segment_data d o' e \<noteq> []
          \<and> m_distance_from_edge_start (edge_segment_data d o' e ! 0) = 0
          \<and> (\<forall>i. i + 1 < length (edge_segment_data d o' e) \<longrightarrow>
                m_distance_from_edge_start (edge_segment_data d o' e ! (i + 1))
                  = float_add (m_distance_from_edge_start (edge_segment_data d o' e ! i))
                      (m_length (edge_segment_data d o' e ! i)))
          \<and> (\<forall>S \<in> set (edge_segment_data d o' e).
                m_edge_length S
                  = float_add (m_distance_from_edge_start (last (edge_segment_data d o' e)))
                      (m_length (last (edge_segment_data d o' e))))
          \<and> (\<forall>S \<in> set (edge_segment_data d o' e).
                segment.m_closed_contour_length S
                  = float_sum (map m_length
                      (concat (map (edge_segment_data d o') [0 ..< number_edges d o'])))))"
proof (intro allI impI)
  fix o' e assume oe: "o' < number_contours d \<and> e < number_edges d o'"
  from assms obtain G where G:
    "list_all2 (list_all2 edge_of_job) jobs G"
    "m_segment_data d = concat (concat G)"
    "map (map m_edge_range) (TessellatedPathPrivate.m_edges d) = contour_ranges 0 G"
    "\<forall>g \<in> set G. contour_closed g"
    "number_contours d = length G"
    by (rule TessellatedPath_structure) blast
  note acc = structure_accessors[OF G(3) G(2)]
  have o': "o' < length G" and e: "e < length (G ! o')"
    using oe acc(2)[of o'] by (simp_all add: G(5))
  have esd: "edge_segment_data d o' e = G ! o' ! e" by (rule acc(4)[OF o' e])
  have "list_all2 edge_of_job (jobs ! o') (G ! o')" by (rule list_all2_nthD2[OF G(1) o'])
  then have "edge_of_job (jobs ! o' ! e) (G ! o' ! e)" by (rule list_all2_nthD2[OF _ e])
  then have loc: "G ! o' ! e \<noteq> []" "dist_chain 0 (G ! o' ! e)"
    "\<forall>S \<in> set (G ! o' ! e). m_edge_length S
        = float_add (m_distance_from_edge_start (last (G ! o' ! e))) (m_length (last (G ! o' ! e)))"
    by (simp_all add: edge_of_job_def edge_local_def)
  have all_edges: "map (edge_segment_data d o') [0 ..< number_edges d o'] = G ! o'"
    by (rule nth_equalityI) (simp_all add: acc(2)[OF o'] acc(4)[OF o'])
  have "contour_closed (G ! o')" using G(4) o' by simp
  moreover have "G ! o' ! e \<in> set (G ! o')" using e by simp
  then have "set (G ! o' ! e) \<subseteq> set (concat (G ! o'))" by auto
  ultimately have closed: "\<forall>S \<in> set (G ! o' ! e).
      segment.m_closed_contour_length S = float_sum (map m_length (concat (G ! o')))"
    by (auto simp: contour_closed_def)
  show "edge_segment_data d o' e \<noteq> []
          \<and> m_distance_from_edge_start (edge_segment_data d o' e ! 0) = 0
          \<and> (\<forall>i. i + 1 < length (edge_segment_data d o' e) \<longrightarrow>
                m_distance_from_edge_start (edge_segment_data d o' e ! (i + 1))
                  = float_add (m_distance_from_edge_start (edge_segment_data d o' e ! i))
                      (m_length (edge_segment_data d o' e ! i)))
          \<and> (\<forall>S \<in> set (edge_segment_data d o' e).
                m_edge_length S
                  = float_add (m_distance_from_edge_start (last (edge_segment_data d o' e)))
                      (m_length (last (edge_segment_data d o' e))))
          \<and> (\<forall>S \<in> set (edge_segment_data d o' e).
                segment.m_closed_contour_length S
                  = float_sum (map m_length
                      (concat (map (edge_segment_data d o') [0 ..< number_edges d o']))))"
    unfolding all_edges esd
    using loc(1) loc(3) closed dist_chain_nth[OF loc(2)] by blast
qed

lemma contiguous_nth:
  "contiguous xs \<longleftrightarrow> (\<forall>i. Suc i < length xs \<longrightarrow> m_end_pt (xs ! i) = m_start_pt (xs ! Suc i))"
proof (induction xs rule: contiguous.induct)
  case (1 x y r)
  show ?case
  proof
    assume c: "contiguous (x # y # r)"
    show "\<forall>i. Suc i < length (x # y # r) \<longrightarrow>
            m_end_pt ((x # y # r) ! i) = m_start_pt ((x # y # r) ! Suc i)"
    proof (intro allI impI)
      fix i assume "Suc i < length (x # y # r)"
      then show "m_end_pt ((x # y # r) ! i) = m_start_pt ((x # y # r) ! Suc i)"
        using c 1 by (cases i) auto
    qed
  next
    assume a: "\<forall>i. Suc i < length (x # y # r) \<longrightarrow>
            m_end_pt ((x # y # r) ! i) = m_start_pt ((x # y # r) ! Suc i)"
    have "m_end_pt x = m_start_pt y" using a[rule_format, of 0] by simp
    moreover have "\<forall>i. Suc i < length (y # r) \<longrightarrow> m_end_pt ((y # r) ! i) = m_start_pt ((y # r) ! Suc i)"
    proof (intro allI impI)
      fix i assume "Suc i < length (y # r)"
      then show "m_end_pt ((y # r) ! i) = m_start_pt ((y # r) ! Suc i)"
        using a[rule_format, of "Suc i"] by simp
    qed
    ultimately show "contiguous (x # y # r)" using 1 by simp
  qed
qed simp_all

lemma contiguous_same_points:
  assumes "map m_start_pt xs = map m_start_pt ys" "map m_end_pt xs = map m_end_pt ys"
  shows "contiguous xs = contiguous ys"
proof -
  have len: "length xs = length ys" using arg_cong[OF assms(1), of length] by simp
  have s: "m_start_pt (xs ! i) = m_start_pt (ys ! i)" if "i < length xs" for i
    using arg_cong[OF assms(1), of "\<lambda>l. l ! i"] that len by simp
  have e: "m_end_pt (xs ! i) = m_end_pt (ys ! i)" if "i < length xs" for i
    using arg_cong[OF assms(2), of "\<lambda>l. l ! i"] that len by simp
  show ?thesis unfolding contiguous_nth using len s e by auto
qed

text \<open>
  The segments that a sequence of storage calls writes are contiguous exactly when the
  calls form a chain: the segments of one call always are, and two calls meet when the
  second starts at the end point of the first.
\<close>

lemma run_storage_calls_shape:
  "run_storage_calls cs d = Inr d' \<Longrightarrow>
   \<exists>new. d' = d @ new \<and> (contiguous new \<longleftrightarrow> calls_chained cs)
     \<and> (cs = [] \<longrightarrow> new = [])
     \<and> (cs \<noteq> [] \<longrightarrow> new \<noteq> [] \<and> m_start_pt (hd new) = call_start (hd cs)
                     \<and> m_end_pt (last new) = call_end (last cs))"
proof (induction cs arbitrary: d)
  case Nil
  then show ?case by simp
next
  case (Cons c cs)
  have chained: "calls_chained (c # cs)
                   \<longleftrightarrow> calls_chained cs \<and> (cs \<noteq> [] \<longrightarrow> call_end c = call_start (hd cs))"
    by (cases cs) auto
  obtain d1 n1 where step: "run_storage_calls cs d1 = Inr d'" "d1 = d @ n1" "n1 \<noteq> []"
    "contiguous n1" "m_start_pt (hd n1) = call_start c" "m_end_pt (last n1) = call_end c"
  proof (cases c)
    case (add_line_segment_call start "end")
    show ?thesis
      apply (rule that[of "add_line_segment start end d" "[segment_fresh \<lparr> m_start_pt := start, m_end_pt := end, m_radius := 0,
            m_center := (0, 0), m_arc_angle := \<lparr> m_begin = 0, m_end = 0 \<rparr>,
            m_type := line_segment, m_tangent_with_predecessor := False \<rparr>]"])
      using Cons.prems(1) add_line_segment_call by (simp_all add: add_line_segment_def)
  next
    case (add_arc_segment_call start "end" center radius arc_angle)
    with Cons.prems(1) obtain d1 where d1: "add_arc_segment start end center radius arc_angle d = Inr d1"
      "run_storage_calls cs d1 = Inr d'"
      by (auto simp: bind_r_eq_Inr)
    from add_arc_segment_shape[OF d1(1)] obtain new where
      "d1 = d @ new" "new \<noteq> []" "contiguous new" "m_start_pt (hd new) = start"
      "m_end_pt (last new) = end"
      by blast
    then show ?thesis using that[of d1 new] d1(2) add_arc_segment_call by simp
  qed
  from Cons.IH[OF step(1)] obtain n2 where n2:
    "d' = d1 @ n2" "contiguous n2 \<longleftrightarrow> calls_chained cs" "cs = [] \<longrightarrow> n2 = []"
    "cs \<noteq> [] \<longrightarrow> n2 \<noteq> [] \<and> m_start_pt (hd n2) = call_start (hd cs)
                     \<and> m_end_pt (last n2) = call_end (last cs)"
    by blast
  have "contiguous (n1 @ n2) \<longleftrightarrow> calls_chained (c # cs)"
    unfolding chained contiguous_append using step(3,4,6) n2(2,3,4) by (cases "cs = []") auto
  then show ?case
    apply (intro exI[of _ "n1 @ n2"])
    using step n2 by (cases "cs = []") auto
qed

text \<open>
  C1 (amended). In a tessellated path whose contours all have an edge, the consecutive
  segments of an edge meet, the end point of segment \<open>i\<close> being the start point of
  segment \<open>i + 1\<close> for every index \<open>i\<close> with \<open>i\<close> and \<open>i + 1\<close> in the range of the edge,
  exactly when the storage calls that wrote the edge form a chain, each call starting at
  the point where the call before it ended. The segments written by one call of
  \<open>add_arc_segment\<close> always meet, so an edge written by a single call is contiguous.
\<close>

theorem segments_contiguous:
  assumes "TessellatedPath jobs d" "\<forall>o' < number_contours d. 0 < number_edges d o'"
  shows "\<forall>o' e. o' < number_contours d \<and> e < number_edges d o' \<longrightarrow>
           ((\<forall>i. m_begin (edge_range d o' e) \<le> i \<and> i + 1 < m_end (edge_range d o' e) \<longrightarrow>
                 m_end_pt (segment_data d ! i) = m_start_pt (segment_data d ! (i + 1)))
            \<longleftrightarrow> calls_chained (job_calls (jobs ! o' ! e)))"
proof (intro allI impI)
  fix o' e
  assume H: "o' < number_contours d \<and> e < number_edges d o'"
  from assms(1,2) obtain G where G:
    "list_all2 (list_all2 edge_of_job) jobs G"
    "m_segment_data d = concat (concat G)"
    "map (map m_edge_range) (TessellatedPathPrivate.m_edges d) = contour_ranges 0 G"
    "number_contours d = length G"
    by (rule TessellatedPath_structure) blast
  note acc = structure_accessors[OF G(3) G(2)]
  have o': "o' < length G" and e: "e < length (G ! o')"
    using H acc(2)[of o'] by (simp_all add: G(4))
  define a where "a = m_begin (edge_range d o' e)"
  define v where "v = G ! o' ! e"
  have range: "m_end (edge_range d o' e) = a + length v"
    using acc(3)[OF o' e] by (simp add: a_def v_def)
  have esd: "take (length v) (drop a (segment_data d)) = v"
    using acc(4)[OF o' e] range
    by (simp add: edge_segment_data_def sub_array_def segment_data_def a_def v_def)
  have nth: "segment_data d ! (a + j) = v ! j" if "j < length v" for j
  proof -
    have "v ! j = take (length v) (drop a (segment_data d)) ! j" by (simp add: esd)
    also have "\<dots> = drop a (segment_data d) ! j" using that by simp
    also have "\<dots> = segment_data d ! (a + j)"
    proof (rule nth_drop)
      have "length v \<le> length (drop a (segment_data d))"
        using arg_cong[OF esd, of length] by simp
      then show "a \<le> length (segment_data d)" using that by (cases "a \<le> length (segment_data d)") auto
    qed
    finally show ?thesis by simp
  qed
  have "list_all2 edge_of_job (jobs ! o') (G ! o')" by (rule list_all2_nthD2[OF G(1) o'])
  then have "edge_of_job (jobs ! o' ! e) v" unfolding v_def by (rule list_all2_nthD2[OF _ e])
  then obtain raw where raw: "run_storage_calls (job_calls (jobs ! o' ! e)) [] = Inr raw"
    "map m_start_pt v = map m_start_pt raw" "map m_end_pt v = map m_end_pt raw"
    by (auto simp: edge_of_job_def)
  from run_storage_calls_shape[OF raw(1)]
  have "contiguous raw \<longleftrightarrow> calls_chained (job_calls (jobs ! o' ! e))" by auto
  then have cont: "contiguous v \<longleftrightarrow> calls_chained (job_calls (jobs ! o' ! e))"
    using contiguous_same_points[OF raw(2,3)] by simp
  have idx: "(\<forall>i. a \<le> i \<and> i + 1 < a + length v \<longrightarrow>
                 m_end_pt (segment_data d ! i) = m_start_pt (segment_data d ! (i + 1)))
             \<longleftrightarrow> contiguous v"
  proof
    assume A: "\<forall>i. a \<le> i \<and> i + 1 < a + length v \<longrightarrow>
                 m_end_pt (segment_data d ! i) = m_start_pt (segment_data d ! (i + 1))"
    show "contiguous v"
      unfolding contiguous_nth
    proof (intro allI impI)
      fix j assume j: "Suc j < length v"
      then have "m_end_pt (segment_data d ! (a + j)) = m_start_pt (segment_data d ! (a + j + 1))"
        using A by simp
      then show "m_end_pt (v ! j) = m_start_pt (v ! Suc j)"
        using nth[of j] nth[of "Suc j"] j by simp
    qed
  next
    assume c: "contiguous v"
    show "\<forall>i. a \<le> i \<and> i + 1 < a + length v \<longrightarrow>
                 m_end_pt (segment_data d ! i) = m_start_pt (segment_data d ! (i + 1))"
    proof (intro allI impI)
      fix i assume H': "a \<le> i \<and> i + 1 < a + length v"
      define j where "j = i - a"
      have j: "i = a + j" "Suc j < length v" using H' unfolding j_def by linarith+
      have "m_end_pt (v ! j) = m_start_pt (v ! Suc j)"
        using c j(2) by (simp add: contiguous_nth)
      then show "m_end_pt (segment_data d ! i) = m_start_pt (segment_data d ! (i + 1))"
        using nth[of j] nth[of "Suc j"] j by simp
    qed
  qed
  show "(\<forall>i. m_begin (edge_range d o' e) \<le> i \<and> i + 1 < m_end (edge_range d o' e) \<longrightarrow>
                 m_end_pt (segment_data d ! i) = m_start_pt (segment_data d ! (i + 1)))
            \<longleftrightarrow> calls_chained (job_calls (jobs ! o' ! e))"
    unfolding range a_def[symmetric] using idx cont by simp
qed

lemma example_tessellated:
  "\<exists>d. tessellate_contours example_params (path_jobs example_params example_path) = Inr d
     \<and> map (map m_edge_range) (TessellatedPathPrivate.m_edges d) =
         [[\<lparr> m_begin = 0, m_end = 2 \<rparr>, \<lparr> m_begin = 2, m_end = 3 \<rparr>],
          [\<lparr> m_begin = 3, m_end = 5 \<rparr>]]"
  by (simp add: tessellate_contours_def start_contour_def add_edge_def add_line_segment_def
      Let_def end_contour_def finalize_def u32_def resize_def TessellatedPathPrivate_init_def
      TessellatedPathBuildingState_init_def Edge_fresh_def path_jobs_def path_edge_job_def
      polyline_def example_path_def)

lemma example_path_built:
  obtains d where
    "TessellatedPath_of_Path example_path example_params False = Inr (d, None)"
    "TessellatedPath (path_jobs example_params example_path) d"
    "number_contours d = 2" "number_edges d 0 = 2" "number_edges d 1 = 1"
    "edge_range d 0 0 = \<lparr> m_begin = 0, m_end = 2 \<rparr>"
    "\<forall>o' < number_contours d. 0 < number_edges d o'"
proof -
  from example_tessellated obtain d where d:
    "tessellate_contours example_params (path_jobs example_params example_path) = Inr d"
    "map (map m_edge_range) (TessellatedPathPrivate.m_edges d) =
         [[\<lparr> m_begin = 0, m_end = 2 \<rparr>, \<lparr> m_begin = 2, m_end = 3 \<rparr>],
          [\<lparr> m_begin = 3, m_end = 5 \<rparr>]]"
    by (elim exE conjE)
  have ctor: "TessellatedPath_of_Path example_path example_params False = Inr (d, None)"
    by (simp add: TessellatedPath_of_Path_def d(1))
  have len: "length (TessellatedPathPrivate.m_edges d) = 2"
    using arg_cong[OF d(2), of length] by simp
  have row0: "map m_edge_range (TessellatedPathPrivate.m_edges d ! 0)
                = [\<lparr> m_begin = 0, m_end = 2 \<rparr>, \<lparr> m_begin = 2, m_end = 3 \<rparr>]"
    using arg_cong[OF d(2), of "\<lambda>l. l ! 0"] len by simp
  have row1: "map m_edge_range (TessellatedPathPrivate.m_edges d ! 1)
                = [\<lparr> m_begin = 3, m_end = 5 \<rparr>]"
    using arg_cong[OF d(2), of "\<lambda>l. l ! 1"] len by simp
  have n: "number_contours d = 2" "number_edges d 0 = 2" "number_edges d 1 = 1"
    using len arg_cong[OF row0, of length] arg_cong[OF row1, of length]
    by (simp_all add: number_contours_def number_edges_def)
  have r00: "edge_range d 0 0 = \<lparr> m_begin = 0, m_end = 2 \<rparr>"
    using arg_cong[OF row0, of "\<lambda>l. l ! 0"] n(2) by (simp add: edge_range_def number_edges_def)
  have all: "\<forall>o' < number_contours d. 0 < number_edges d o'"
    using n by (auto simp: less_Suc_eq numeral_2_eq_2)
  show thesis
    by (rule that[OF ctor TessellatedPath.of_Path[OF ctor] n r00 all])
qed

theorem edge_ranges_partition_witness:
  "\<exists>d. TessellatedPath_of_Path example_path example_params False = Inr (d, None)
     \<and> number_contours d = 2 \<and> number_edges d 0 = 2 \<and> number_edges d 1 = 1
     \<and> m_begin (edge_range d 0 0) = 0
     \<and> m_begin (edge_range d 0 1) = m_end (edge_range d 0 0)
     \<and> m_begin (edge_range d 1 0) = m_end (edge_range d 0 1)
     \<and> m_end (edge_range d 1 0) = length (segment_data d)"
proof -
  obtain d where d:
    "TessellatedPath_of_Path example_path example_params False = Inr (d, None)"
    "TessellatedPath (path_jobs example_params example_path) d"
    "number_contours d = 2" "number_edges d 0 = 2" "number_edges d 1 = 1"
    "\<forall>o' < number_contours d. 0 < number_edges d o'"
    by (rule example_path_built)
  note T = edge_ranges_partition[OF d(2) d(6)]
  have "m_begin (edge_range d 0 0) = 0" using T d(3) by simp
  moreover have "m_begin (edge_range d 0 1) = m_end (edge_range d 0 0)"
    using T[THEN conjunct2, THEN conjunct1, rule_format, of 0 0] d(3,4) by simp
  moreover have "m_begin (edge_range d 1 0) = m_end (edge_range d 0 1)"
    using T[THEN conjunct2, THEN conjunct2, THEN conjunct1, rule_format, of 0] d(3,4) by simp
  moreover have "m_end (edge_range d 1 0) = length (segment_data d)"
    using T[THEN conjunct2, THEN conjunct2, THEN conjunct2] d(3,5) by simp
  ultimately show ?thesis using d(1,3,4,5) by blast
qed

theorem distance_fields_witness:
  "\<exists>d. TessellatedPath_of_Path example_path example_params False = Inr (d, None)
     \<and> edge_segment_data d 0 0 \<noteq> []
     \<and> m_distance_from_edge_start (edge_segment_data d 0 0 ! 0) = 0
     \<and> (\<forall>i. i + 1 < length (edge_segment_data d 0 0) \<longrightarrow>
                m_distance_from_edge_start (edge_segment_data d 0 0 ! (i + 1))
                  = float_add (m_distance_from_edge_start (edge_segment_data d 0 0 ! i))
                      (m_length (edge_segment_data d 0 0 ! i)))
     \<and> (\<forall>S \<in> set (edge_segment_data d 0 0).
                m_edge_length S
                  = float_add (m_distance_from_edge_start (last (edge_segment_data d 0 0)))
                      (m_length (last (edge_segment_data d 0 0))))
     \<and> (\<forall>S \<in> set (edge_segment_data d 0 0).
                segment.m_closed_contour_length S
                  = float_sum (map m_length
                      (concat (map (edge_segment_data d 0) [0 ..< 2]))))"
proof -
  obtain d where d:
    "TessellatedPath_of_Path example_path example_params False = Inr (d, None)"
    "TessellatedPath (path_jobs example_params example_path) d"
    "number_contours d = 2" "number_edges d 0 = 2"
    "\<forall>o' < number_contours d. 0 < number_edges d o'"
    by (rule example_path_built)
  have "0 < number_contours d \<and> 0 < number_edges d 0" using d(3,4) by simp
  from distance_fields[OF d(2) d(5), rule_format, OF this] d(1) d(4)
  show ?thesis by auto
qed

section \<open>Refining a tessellation\<close>









section \<open>The stroked and the filled path\<close>

lemma stroked_cases:
  "stroked (d, heap) =
     (if m_stroked d = None then (Some heap, d \<lparr> m_stroked := Some heap \<rparr>, heap + 1)
      else (m_stroked d, d, heap))"
  by (simp add: stroked_def)

lemma filled_cases:
  "filled (d, heap) =
     (if m_filled d = None \<and> \<not> m_has_arcs d
      then (Some heap, d \<lparr> m_filled := Some heap \<rparr>, heap + 1)
      else (m_filled d, d, heap))"
  by (simp add: filled_def)

lemma run_accessors_inv:
  "run_accessors cs (d, heap) = (rs, d', heap') \<Longrightarrow>
     length rs = length cs \<and> m_has_arcs d' = m_has_arcs d \<and> heap \<le> heap'
   \<and> (\<forall>i < length cs. cs ! i = call_stroked \<longrightarrow> rs ! i = m_stroked d' \<and> rs ! i \<noteq> None)
   \<and> (\<forall>i < length cs. cs ! i = call_filled \<longrightarrow> rs ! i = m_filled d')
   \<and> (m_stroked d \<noteq> None \<longrightarrow> m_stroked d' = m_stroked d)
   \<and> (m_filled d \<noteq> None \<longrightarrow> m_filled d' = m_filled d)
   \<and> (m_stroked d = None \<longrightarrow> (\<forall>p. m_stroked d' = Some p \<longrightarrow> heap \<le> p \<and> p < heap'))
   \<and> (m_filled d = None \<longrightarrow> (\<forall>p. m_filled d' = Some p \<longrightarrow> heap \<le> p \<and> p < heap'))
   \<and> (m_filled d = None \<and> m_has_arcs d \<longrightarrow> m_filled d' = None)
   \<and> (m_filled d = None \<and> \<not> m_has_arcs d \<and> call_filled \<in> set cs \<longrightarrow> m_filled d' \<noteq> None)
   \<and> heap' = heap + (if m_stroked d = None \<and> call_stroked \<in> set cs then 1 else 0)
                   + (if m_filled d = None \<and> \<not> m_has_arcs d \<and> call_filled \<in> set cs then 1 else 0)"
proof (induction cs arbitrary: d heap rs)
  case Nil
  then show ?case by simp
next
  case (Cons c cs)
  show ?case
  proof (cases c)
    case call_stroked
    obtain r d1 h1 where s: "stroked (d, heap) = (r, d1, h1)" by (metis prod_cases3)
    obtain rs1 where rest: "run_accessors cs (d1, h1) = (rs1, d', heap')" and rs: "rs = r # rs1"
      using Cons.prems call_stroked s by (auto split: prod.splits)
    note IH = Cons.IH[OF rest]
    have s': "r \<noteq> None" "r = m_stroked d1" "m_filled d1 = m_filled d" "m_has_arcs d1 = m_has_arcs d"
      "h1 = heap + (if m_stroked d = None then 1 else 0)"
      "m_stroked d = None \<longrightarrow> r = Some heap"
      "m_stroked d \<noteq> None \<longrightarrow> r = m_stroked d"
      using s by (auto simp: stroked_cases split: if_splits)
    show ?thesis
      unfolding rs call_stroked
      using IH s' by (cases "m_stroked d = None"; cases "m_filled d = None"; cases "m_has_arcs d";
          simp add: All_less_Suc2; blast dest: Suc_leD)
  next
    case call_filled
    obtain r d1 h1 where s: "filled (d, heap) = (r, d1, h1)" by (metis prod_cases3)
    obtain rs1 where rest: "run_accessors cs (d1, h1) = (rs1, d', heap')" and rs: "rs = r # rs1"
      using Cons.prems call_filled s by (auto split: prod.splits)
    note IH = Cons.IH[OF rest]
    have s': "r = m_filled d1" "m_stroked d1 = m_stroked d" "m_has_arcs d1 = m_has_arcs d"
      "h1 = heap + (if m_filled d = None \<and> \<not> m_has_arcs d then 1 else 0)"
      "m_filled d = None \<and> \<not> m_has_arcs d \<longrightarrow> r = Some heap"
      "m_filled d = None \<and> m_has_arcs d \<longrightarrow> r = None"
      "m_filled d \<noteq> None \<longrightarrow> r = m_filled d"
      using s by (auto simp: filled_cases split: if_splits)
    show ?thesis
      unfolding rs call_filled
      using IH s' by (cases "m_stroked d = None"; cases "m_filled d = None"; cases "m_has_arcs d";
          simp add: All_less_Suc2; blast dest: Suc_leD)
  qed
qed

lemma run_accessors_facts:
  assumes "run_accessors cs (d, heap) = (rs, d', heap')"
  shows "\<forall>i < length cs. cs ! i = call_stroked \<longrightarrow> rs ! i = m_stroked d' \<and> rs ! i \<noteq> None"
    and "\<forall>i < length cs. cs ! i = call_filled \<longrightarrow> rs ! i = m_filled d'"
    and "m_stroked d = None \<longrightarrow> (\<forall>p. m_stroked d' = Some p \<longrightarrow> heap \<le> p \<and> p < heap')"
    and "m_filled d = None \<longrightarrow> (\<forall>p. m_filled d' = Some p \<longrightarrow> heap \<le> p \<and> p < heap')"
    and "m_filled d = None \<and> m_has_arcs d \<longrightarrow> m_filled d' = None"
    and "m_filled d = None \<and> \<not> m_has_arcs d \<and> call_filled \<in> set cs \<longrightarrow> m_filled d' \<noteq> None"
    and "heap' = heap + (if m_stroked d = None \<and> call_stroked \<in> set cs then 1 else 0)
                   + (if m_filled d = None \<and> \<not> m_has_arcs d \<and> call_filled \<in> set cs then 1 else 0)"
  using run_accessors_inv[OF assms] by blast+

text \<open>
  C9 (amended). In a sequence of calls of \<open>stroked\<close> and \<open>filled\<close> on a path that holds
  neither object yet: every call of \<open>stroked\<close> returns the same object, made during the
  sequence; when the path has no arc segment, every call of \<open>filled\<close> returns the same
  object, made during the sequence; when the path has an arc segment, every call of
  \<open>filled\<close> returns the null reference; and the sequence makes one object for
  \<open>stroked\<close> if it is called, and one for \<open>filled\<close> if it is called on a path
  without arc segments, and no other.
\<close>

theorem lazy_accessors:
  assumes "run_accessors cs (d, heap) = (rs, d', heap')"
    and "m_stroked d = None" and "m_filled d = None"
  shows "(\<forall>i < length cs. cs ! i = call_stroked \<longrightarrow>
            rs ! i = m_stroked d' \<and> (\<exists>p. rs ! i = Some p \<and> heap \<le> p \<and> p < heap'))
       \<and> (\<not> m_has_arcs d \<longrightarrow>
            (\<forall>i < length cs. cs ! i = call_filled \<longrightarrow>
               rs ! i = m_filled d' \<and> (\<exists>p. rs ! i = Some p \<and> heap \<le> p \<and> p < heap')))
       \<and> (m_has_arcs d \<longrightarrow> (\<forall>i < length cs. cs ! i = call_filled \<longrightarrow> rs ! i = None))
       \<and> heap' = heap + (if call_stroked \<in> set cs then 1 else 0)
                       + (if call_filled \<in> set cs \<and> \<not> m_has_arcs d then 1 else 0)"
proof (intro conjI allI impI)
  note I = run_accessors_facts[OF assms(1)]
  {
    fix i assume i: "i < length cs" "cs ! i = call_stroked"
    have a: "rs ! i = m_stroked d'" "rs ! i \<noteq> None" using I(1) i by blast+
    then obtain p where p: "rs ! i = Some p" by blast
    then have "m_stroked d' = Some p" using a(1) by simp
    then have b: "heap \<le> p \<and> p < heap'" using I(3) assms(2) by blast
    show "rs ! i = m_stroked d'" by (rule a(1))
    show "\<exists>p. rs ! i = Some p \<and> heap \<le> p \<and> p < heap'" using p b by blast
  }
  {
    fix i assume i: "i < length cs" "cs ! i = call_filled" and na: "\<not> m_has_arcs d"
    have a: "rs ! i = m_filled d'" using I(2) i by blast
    have "call_filled \<in> set cs" using i by (metis nth_mem)
    then have "m_filled d' \<noteq> None" using I(6) assms(3) na by blast
    then obtain p where p: "m_filled d' = Some p" by blast
    then have b: "heap \<le> p \<and> p < heap'" using I(4) assms(3) by blast
    show "rs ! i = m_filled d'" by (rule a)
    show "\<exists>p. rs ! i = Some p \<and> heap \<le> p \<and> p < heap'" using p b a by simp
  }
  {
    fix i assume i: "i < length cs" "cs ! i = call_filled" and ha: "m_has_arcs d"
    have "m_filled d' = None" using I(5) assms(3) ha by blast
    moreover have "rs ! i = m_filled d'" using I(2) i by blast
    ultimately show "rs ! i = None" by simp
  }
  show "heap' = heap + (if call_stroked \<in> set cs then 1 else 0)
                       + (if call_filled \<in> set cs \<and> \<not> m_has_arcs d then 1 else 0)"
    using I(7) assms(2,3) by simp
qed

lemma upt_0_7: "[0 ..< 7] = [0, 1, 2, 3, 4, 5, 6]"
  by code_simp

lemma example_arc_evaluated:
  "\<exists>d. tessellate_contours example_params (path_jobs example_params example_arc_path) = Inr d
     \<and> m_has_arcs d \<and> m_filled d = None \<and> m_stroked d = None"
  by (simp add: tessellate_contours_def start_contour_def add_edge_def add_line_segment_def
      Let_def end_contour_def finalize_def u32_def resize_def TessellatedPathPrivate_init_def
      TessellatedPathBuildingState_init_def Edge_fresh_def path_jobs_def path_edge_job_def
      quarter_arc_def add_arc_segment_def add_tessellated_arc_segment_def crit_angles_def
      max_arc_def upt_0_7 arc_segment_loop.simps example_arc_path_def polyline_def
      float_sub_def float_div_def float_add_def float_round_numeral float_round_dyadics
      float_round_fractions)

lemma example_arc_built:
  "TessellatedPath_of_Path example_arc_path example_params False
     = Inr (example_arc_tessellated, None)"
  "m_has_arcs example_arc_tessellated"
  "m_filled example_arc_tessellated = None"
  "m_stroked example_arc_tessellated = None"
proof -
  from example_arc_evaluated obtain d where d:
    "tessellate_contours example_params (path_jobs example_params example_arc_path) = Inr d"
    "m_has_arcs d" "m_filled d = None" "m_stroked d = None"
    by (elim exE conjE)
  have ctor: "TessellatedPath_of_Path example_arc_path example_params False = Inr (d, None)"
    by (simp add: TessellatedPath_of_Path_def d(1))
  then have eq: "example_arc_tessellated = d" by (simp add: example_arc_tessellated_def)
  show "TessellatedPath_of_Path example_arc_path example_params False
     = Inr (example_arc_tessellated, None)"
    "m_has_arcs example_arc_tessellated"
    "m_filled example_arc_tessellated = None"
    "m_stroked example_arc_tessellated = None"
    using ctor d by (simp_all add: eq)
qed

text \<open>
  On a path with an arc segment \<open>filled\<close> makes no object: the first call returns the
  null reference and leaves the allocation counter as it was.
\<close>

theorem filled_with_arcs_counterexample:
  "TessellatedPath_of_Path example_arc_path example_params False
     = Inr (example_arc_tessellated, None)
   \<and> m_filled example_arc_tessellated = None
   \<and> filled (example_arc_tessellated, 0) = (None, example_arc_tessellated, 0)"
  using example_arc_built by (simp add: filled_cases)

lemma example_curve_plain:
  "\<exists>d. tessellate_contours example_params (path_jobs example_params example_curve_path) = Inr d
     \<and> \<not> m_has_arcs d \<and> m_filled d = None \<and> m_stroked d = None"
  by (simp add: tessellate_contours_def start_contour_def add_edge_def add_line_segment_def
      Let_def end_contour_def finalize_def u32_def resize_def TessellatedPathPrivate_init_def
      TessellatedPathBuildingState_init_def Edge_fresh_def path_jobs_def path_edge_job_def
      example_curve_def example_curve_path_def)

lemma example_curve_built:
  "\<not> m_has_arcs example_curve_tessellated"
  "m_filled example_curve_tessellated = None"
  "m_stroked example_curve_tessellated = None"
proof -
  from example_curve_plain obtain d where d:
    "tessellate_contours example_params (path_jobs example_params example_curve_path) = Inr d"
    "\<not> m_has_arcs d" "m_filled d = None" "m_stroked d = None"
    by blast
  have "fst (projr (TessellatedPath_of_Path example_curve_path example_params True)) = d"
    by (simp add: TessellatedPath_of_Path_def d(1))
  then have eq: "example_curve_tessellated = d" by (simp add: example_curve_tessellated_def)
  show "\<not> m_has_arcs example_curve_tessellated"
    "m_filled example_curve_tessellated = None"
    "m_stroked example_curve_tessellated = None"
    using d by (simp_all add: eq)
qed

theorem lazy_accessors_witness:
  "(\<exists>rs d' heap'.
      run_accessors [call_stroked, call_filled, call_stroked, call_filled]
        (example_arc_tessellated, 0) = (rs, d', heap')
    \<and> m_has_arcs example_arc_tessellated
    \<and> rs ! 0 = rs ! 2 \<and> rs ! 0 \<noteq> None \<and> rs ! 1 = None \<and> rs ! 3 = None \<and> heap' = 1)
 \<and> (\<exists>rs d' heap'.
      run_accessors [call_filled, call_stroked, call_filled]
        (example_curve_tessellated, 0) = (rs, d', heap')
    \<and> \<not> m_has_arcs example_curve_tessellated
    \<and> rs ! 0 = rs ! 2 \<and> rs ! 0 \<noteq> None \<and> rs ! 1 \<noteq> None \<and> heap' = 2)"
proof (rule conjI)
  let ?cs = "[call_stroked, call_filled, call_stroked, call_filled]"
  obtain rs d' heap' where run:
    "run_accessors ?cs (example_arc_tessellated, 0) = (rs, d', heap')"
    by (metis prod_cases3)
  note T = lazy_accessors[OF run example_arc_built(4) example_arc_built(3)]
  have s0: "rs ! 0 = m_stroked d' \<and> (\<exists>p. rs ! 0 = Some p \<and> 0 \<le> p \<and> p < heap')"
    by (rule T[THEN conjunct1, rule_format]) simp_all
  have s2: "rs ! 2 = m_stroked d' \<and> (\<exists>p. rs ! 2 = Some p \<and> 0 \<le> p \<and> p < heap')"
    by (rule T[THEN conjunct1, rule_format]) simp_all
  have f1: "rs ! 1 = None"
    by (rule T[THEN conjunct2, THEN conjunct2, THEN conjunct1, rule_format])
      (simp_all add: example_arc_built(2))
  have f3: "rs ! 3 = None"
    by (rule T[THEN conjunct2, THEN conjunct2, THEN conjunct1, rule_format])
      (simp_all add: example_arc_built(2))
  have h: "heap' = 1"
    using T[THEN conjunct2, THEN conjunct2, THEN conjunct2] example_arc_built(2) by simp
  have e02: "rs ! 0 = rs ! 2" using s0 s2 by simp
  from s0 obtain p where "rs ! 0 = Some p" by blast
  then have ne: "rs ! 0 \<noteq> None" by simp
  show "\<exists>rs d' heap'.
      run_accessors ?cs (example_arc_tessellated, 0) = (rs, d', heap')
    \<and> m_has_arcs example_arc_tessellated
    \<and> rs ! 0 = rs ! 2 \<and> rs ! 0 \<noteq> None \<and> rs ! 1 = None \<and> rs ! 3 = None \<and> heap' = 1"
    by (intro exI conjI) (rule run example_arc_built(2) e02 ne f1 f3 h)+
next
  let ?cs = "[call_filled, call_stroked, call_filled]"
  obtain rs d' heap' where run:
    "run_accessors ?cs (example_curve_tessellated, 0) = (rs, d', heap')"
    by (metis prod_cases3)
  note T = lazy_accessors[OF run example_curve_built(3) example_curve_built(2)]
  have f0: "rs ! 0 = m_filled d' \<and> (\<exists>p. rs ! 0 = Some p \<and> 0 \<le> p \<and> p < heap')"
    by (rule T[THEN conjunct2, THEN conjunct1, rule_format])
      (simp_all add: example_curve_built(1))
  have f2: "rs ! 2 = m_filled d' \<and> (\<exists>p. rs ! 2 = Some p \<and> 0 \<le> p \<and> p < heap')"
    by (rule T[THEN conjunct2, THEN conjunct1, rule_format])
      (simp_all add: example_curve_built(1))
  have s1: "rs ! 1 = m_stroked d' \<and> (\<exists>p. rs ! 1 = Some p \<and> 0 \<le> p \<and> p < heap')"
    by (rule T[THEN conjunct1, rule_format]) simp_all
  have h: "heap' = 2"
    using T[THEN conjunct2, THEN conjunct2, THEN conjunct2] example_curve_built(1) by simp
  have e02: "rs ! 0 = rs ! 2" using f0 f2 by simp
  from f0 obtain p where "rs ! 0 = Some p" by blast
  then have ne0: "rs ! 0 \<noteq> None" by simp
  from s1 obtain q where "rs ! 1 = Some q" by blast
  then have ne1: "rs ! 1 \<noteq> None" by simp
  show "\<exists>rs d' heap'.
      run_accessors ?cs (example_curve_tessellated, 0) = (rs, d', heap')
    \<and> \<not> m_has_arcs example_curve_tessellated
    \<and> rs ! 0 = rs ! 2 \<and> rs ! 0 \<noteq> None \<and> rs ! 1 \<noteq> None \<and> heap' = 2"
    by (intro exI conjI) (rule run example_curve_built(1) e02 ne0 ne1 h)+
qed

section \<open>The order of the vertices\<close>

lemma VertLeq_refl: "VertLeq u u"
  by (simp add: VertLeq_def)

lemma VertLeq_total: "VertLeq u v \<or> VertLeq v u"
  by (auto simp: VertLeq_def)

lemma VertLeq_trans: "VertLeq u v \<Longrightarrow> VertLeq v w \<Longrightarrow> VertLeq u w"
  by (auto simp: VertLeq_def)

lemma VertLeq_antisym: "VertLeq u v \<Longrightarrow> VertLeq v u \<Longrightarrow> VertEq u v"
  by (auto simp: VertLeq_def VertEq_def)

lemma VertEq_sym: "VertEq u v \<Longrightarrow> VertEq v u"
  by (simp add: VertEq_def)

lemma VertEq_VertLeq: "VertEq u v \<Longrightarrow> VertLeq u v"
  by (simp add: VertEq_def VertLeq_def)


section \<open>The vertex made at an intersection\<close>







section \<open>The event loop of the sweep\<close>

lemma pqMinimum_None: "pqMinimum pq = None \<longleftrightarrow> pq = []"
  by (cases pq) (simp_all split: option.splits)

lemma pqMinimum_mem: "pqMinimum pq = Some m \<Longrightarrow> m \<in> set pq"
  by (induction pq arbitrary: m) (auto split: option.splits if_splits)

lemma pqMinimum_least: "pqMinimum pq = Some m \<Longrightarrow> w \<in> set pq \<Longrightarrow> VertLeq m w"
proof (induction pq arbitrary: m)
  case Nil
  then show ?case by simp
next
  case (Cons x xs)
  show ?case
  proof (cases "pqMinimum xs")
    case None
    then have "xs = []" by (simp add: pqMinimum_None)
    then show ?thesis using Cons.prems None by (simp add: VertLeq_refl)
  next
    case (Some m')
    note least = Cons.IH[OF Some]
    show ?thesis
    proof (cases "VertLeq x m'")
      case True
      then have m: "m = x" using Cons.prems(1) Some by simp
      show ?thesis
      proof (cases "w = x")
        case True
        then show ?thesis by (simp add: m VertLeq_refl)
      next
        case False
        then have "w \<in> set xs" using Cons.prems(2) by simp
        then have "VertLeq m' w" by (rule least)
        then show ?thesis using True m by (blast intro: VertLeq_trans)
      qed
    next
      case False
      then have m: "m = m'" using Cons.prems(1) Some by simp
      have "VertLeq m' x" using False VertLeq_total[of x m'] by blast
      then show ?thesis using Cons.prems(2) least m by auto
    qed
  qed
qed

lemma pqExtractMin_Some:
  assumes "pqExtractMin pq = (Some v, pq1)"
  shows "v \<in> set pq" "pq1 = remove1 v pq" "\<forall>w \<in> set pq1. VertLeq v w"
proof -
  from assms have m: "pqMinimum pq = Some v" and r: "pq1 = remove1 v pq"
    by (auto simp: pqExtractMin_def split: option.splits)
  show "v \<in> set pq" using m by (rule pqMinimum_mem)
  show "pq1 = remove1 v pq" by (rule r)
  show "\<forall>w \<in> set pq1. VertLeq v w"
    using pqMinimum_least[OF m] r by (metis notin_set_remove1)
qed

text \<open>
  While every vertex of the queue is not less than \<open>v\<close>, the inner loop takes from the
  queue the vertices with the coordinates of \<open>v\<close> and no other.
\<close>

lemma merge_loop_result:
  assumes "\<forall>w \<in> set pq. VertLeq v w" "merge_loop v pq merged = (pq', merged')"
  shows "pq' = filter (\<lambda>w. \<not> VertEq w v) pq
       \<and> (\<exists>ms. merged' = merged @ ms \<and> set ms = {w \<in> set pq. VertEq w v}
               \<and> length ms = length (filter (\<lambda>w. VertEq w v) pq))"
  using assms
proof (induction "length pq" arbitrary: pq merged rule: less_induct)
  case less
  show ?case
  proof (cases "pqMinimum pq")
    case None
    then have "pq = []" by (simp add: pqMinimum_None)
    moreover have "merge_loop v pq merged = (pq, merged)"
      by (subst merge_loop.simps) (simp add: None)
    ultimately show ?thesis using less.prems(2) by simp
  next
    case (Some vNext)
    note mem = pqMinimum_mem[OF Some]
    show ?thesis
    proof (cases "VertEq vNext v")
      case False
      have stop: "merge_loop v pq merged = (pq, merged)"
        by (subst merge_loop.simps) (simp add: Some False)
      have none: "\<not> VertEq w v" if w: "w \<in> set pq" for w
      proof
        assume e: "VertEq w v"
        have "VertLeq vNext w" using Some w by (rule pqMinimum_least)
        then have "VertLeq vNext v" using e VertEq_VertLeq VertLeq_trans by blast
        moreover have "VertLeq v vNext" using less.prems(1) mem by blast
        ultimately show False using False VertLeq_antisym by blast
      qed
      then have "filter (\<lambda>w. \<not> VertEq w v) pq = pq" "filter (\<lambda>w. VertEq w v) pq = []"
        "{w \<in> set pq. VertEq w v} = {}"
        by (simp_all add: filter_empty_conv)
      then show ?thesis using less.prems(2) stop by simp
    next
      case True
      define pq1 where "pq1 = remove1 vNext pq"
      have step: "merge_loop v pq merged = merge_loop v pq1 (merged @ [vNext])"
        by (subst merge_loop.simps)
          (simp add: Some True pqExtractMin_def SpliceMergeVertices_def pq1_def)
      have shorter: "length pq1 < length pq"
        using mem length_pos_if_in_set[OF mem] by (simp add: pq1_def length_remove1)
      have sub: "set pq1 \<subseteq> set pq" unfolding pq1_def by (rule set_remove1_subset)
      have above: "\<forall>w \<in> set pq1. VertLeq v w"
        using less.prems(1) sub by blast
      from less.prems(2) have rest: "merge_loop v pq1 (merged @ [vNext]) = (pq', merged')"
        by (simp add: step)
      from less.hyps[OF shorter above rest] obtain ms where
        q: "pq' = filter (\<lambda>w. \<not> VertEq w v) pq1"
        and ms: "merged' = (merged @ [vNext]) @ ms" "set ms = {w \<in> set pq1. VertEq w v}"
          "length ms = length (filter (\<lambda>w. VertEq w v) pq1)"
        by blast
      have f1: "filter (\<lambda>w. \<not> VertEq w v) pq1 = filter (\<lambda>w. \<not> VertEq w v) pq"
        unfolding pq1_def
        by (simp add: filter_remove1 True remove1_idem)
      have ins: "set pq = insert vNext (set pq1)"
        using mem sub in_set_remove1[of _ vNext pq] unfolding pq1_def by blast
      have s: "set (vNext # ms) = {w \<in> set pq. VertEq w v}"
        using ms(2) True ins by auto
      have "length (filter (\<lambda>w. VertEq w v) pq1)
              = length (remove1 vNext (filter (\<lambda>w. VertEq w v) pq))"
        unfolding pq1_def by (simp add: filter_remove1)
      also have "\<dots> = length (filter (\<lambda>w. VertEq w v) pq) - 1"
        using mem True by (simp add: length_remove1)
      finally have l: "length (vNext # ms) = length (filter (\<lambda>w. VertEq w v) pq)"
        using ms(3) mem True length_pos_if_in_set[of vNext "filter (\<lambda>w. VertEq w v) pq"]
        by simp
      have "merged' = merged @ (vNext # ms)" using ms(1) by simp
      then show ?thesis using q f1 s l by blast
    qed
  qed
qed

lemma computeInterior_loop_Suc:
  assumes "c \<in> set (computeInterior_loop (Suc n) SweepEvent pq)"
  obtains v pq1 pq2 merged where
    "pqExtractMin pq = (Some v, pq1)" "merge_loop v pq1 [] = (pq2, merged)"
    "c = \<lparr> call_event = v, call_pending = pq1, call_merged = merged, call_pq = pq2 \<rparr>
       \<or> c \<in> set (computeInterior_loop n SweepEvent (SweepEvent v pq2))"
proof -
  obtain r pq1 where e: "pqExtractMin pq = (r, pq1)" by (cases "pqExtractMin pq")
  show thesis
  proof (cases r)
    case None
    then show ?thesis using assms e by simp
  next
    case (Some v)
    obtain pq2 merged where m: "merge_loop v pq1 [] = (pq2, merged)"
      by (cases "merge_loop v pq1 []")
    have "computeInterior_loop (Suc n) SweepEvent pq =
        \<lparr> call_event = v, call_pending = pq1, call_merged = merged, call_pq = pq2 \<rparr>
          # computeInterior_loop n SweepEvent (SweepEvent v pq2)"
      by (simp add: e Some m)
    then show ?thesis using assms that[OF e[unfolded Some] m] by auto
  qed
qed

text \<open>
  C4. In every iteration of the event loop, when \<open>SweepEvent\<close> is called on the extracted
  vertex \<open>v\<close>: no vertex of the queue has the coordinates of \<open>v\<close>; the queue holds the
  vertices that were pending when \<open>v\<close> was extracted, without those with the coordinates
  of \<open>v\<close>; and the vertices handed to \<open>SpliceMergeVertices\<close> with \<open>v\<close> are the pending
  vertices with the coordinates of \<open>v\<close>, one call for each of them.
\<close>

theorem SweepEvent_after_merge:
  "\<forall>c \<in> set (computeInterior_loop n SweepEvent pq).
      (\<forall>w \<in> set (call_pq c). \<not> VertEq w (call_event c))
    \<and> call_pq c = filter (\<lambda>w. \<not> VertEq w (call_event c)) (call_pending c)
    \<and> set (call_merged c) = {w \<in> set (call_pending c). VertEq w (call_event c)}
    \<and> length (call_merged c) = length (filter (\<lambda>w. VertEq w (call_event c)) (call_pending c))"
proof (induction n arbitrary: pq)
  case 0
  show ?case by simp
next
  case (Suc n)
  show ?case
  proof
    fix c assume "c \<in> set (computeInterior_loop (Suc n) SweepEvent pq)"
    then obtain v pq1 pq2 merged where
      e: "pqExtractMin pq = (Some v, pq1)" and m: "merge_loop v pq1 [] = (pq2, merged)"
      and c: "c = \<lparr> call_event = v, call_pending = pq1, call_merged = merged, call_pq = pq2 \<rparr>
               \<or> c \<in> set (computeInterior_loop n SweepEvent (SweepEvent v pq2))"
      by (rule computeInterior_loop_Suc)
    from c show "(\<forall>w \<in> set (call_pq c). \<not> VertEq w (call_event c))
      \<and> call_pq c = filter (\<lambda>w. \<not> VertEq w (call_event c)) (call_pending c)
      \<and> set (call_merged c) = {w \<in> set (call_pending c). VertEq w (call_event c)}
      \<and> length (call_merged c)
          = length (filter (\<lambda>w. VertEq w (call_event c)) (call_pending c))"
    proof
      assume here: "c = \<lparr> call_event = v, call_pending = pq1, call_merged = merged,
                           call_pq = pq2 \<rparr>"
      from merge_loop_result[OF pqExtractMin_Some(3)[OF e] m] obtain ms where
        "pq2 = filter (\<lambda>w. \<not> VertEq w v) pq1" "merged = [] @ ms"
        "set ms = {w \<in> set pq1. VertEq w v}"
        "length ms = length (filter (\<lambda>w. VertEq w v) pq1)"
        by blast
      then show ?thesis by (simp add: here)
    next
      assume "c \<in> set (computeInterior_loop n SweepEvent (SweepEvent v pq2))"
      then show ?thesis using Suc.IH by blast
    qed
  qed
qed

lemma example_sweep_calls:
  "computeInterior_loop 2 example_SweepEvent example_pq =
     [\<lparr> call_event = vertex 0 0 2,
        call_pending = [vertex 1 1 1, vertex 0 0 3, vertex 2 0 4, vertex 0 0 5],
        call_merged = [vertex 0 0 3, vertex 0 0 5],
        call_pq = [vertex 1 1 1, vertex 2 0 4] \<rparr>,
      \<lparr> call_event = vertex 1 1 1,
        call_pending = [vertex 2 0 4, vertex 1 1 6],
        call_merged = [vertex 1 1 6],
        call_pq = [vertex 2 0 4] \<rparr>]"
  by (simp add: numeral_2_eq_2 pqExtractMin_def merge_loop.simps SpliceMergeVertices_def
      VertLeq_def VertEq_def vertex_def example_pq_def example_SweepEvent_def)

theorem SweepEvent_after_merge_witness:
  "length (computeInterior_loop 2 example_SweepEvent example_pq) = 2
   \<and> call_event (computeInterior_loop 2 example_SweepEvent example_pq ! 0) = vertex 0 0 2
   \<and> call_merged (computeInterior_loop 2 example_SweepEvent example_pq ! 0)
        = [vertex 0 0 3, vertex 0 0 5]
   \<and> \<not> VertEq (vertex 1 1 1) (vertex 0 0 2) \<and> \<not> VertEq (vertex 2 0 4) (vertex 0 0 2)
   \<and> call_pq (computeInterior_loop 2 example_SweepEvent example_pq ! 0)
        = filter (\<lambda>w. \<not> VertEq w (vertex 0 0 2))
            [vertex 1 1 1, vertex 0 0 3, vertex 2 0 4, vertex 0 0 5]
   \<and> call_event (computeInterior_loop 2 example_SweepEvent example_pq ! 1) = vertex 1 1 1
   \<and> call_merged (computeInterior_loop 2 example_SweepEvent example_pq ! 1) = [vertex 1 1 6]
   \<and> \<not> VertEq (vertex 2 0 4) (vertex 1 1 1)"
proof -
  note T = SweepEvent_after_merge[of 2 example_SweepEvent example_pq]
  have "\<not> VertEq (vertex 1 1 1) (vertex 0 0 2) \<and> \<not> VertEq (vertex 2 0 4) (vertex 0 0 2)
      \<and> [vertex 1 1 1, vertex 2 0 4]
          = filter (\<lambda>w. \<not> VertEq w (vertex 0 0 2))
              [vertex 1 1 1, vertex 0 0 3, vertex 2 0 4, vertex 0 0 5]
      \<and> \<not> VertEq (vertex 2 0 4) (vertex 1 1 1)"
    using T unfolding example_sweep_calls by (simp add: VertEq_def vertex_def)
  then show ?thesis by (simp add: example_sweep_calls)
qed


end
